theory Spec2Isabelle
  imports Main
begin

unbundle bit_operations_syntax

section \<open>Elliptic-curve ElGamal: the model of ECC.py\<close>

text \<open>
  Python integers are unbounded, so every number is an \<open>int\<close>. Python's \<open>%\<close> and
  \<open>divmod\<close> round towards minus infinity, as \<open>mod\<close> and \<open>div\<close> on \<open>int\<close> do.
  Exceptions are values of \<open>error\<close>, returned on the left of a sum; \<open>EC_singular\<close>
  and \<open>EC_bad\<close> stand for the two error boxes after which the form's handlers return.
\<close>

datatype error = AssertionError | NotFound | InvalidOrder | ZeroDivisionError | AttributeError
  | ValueError | OverflowError | IndexError | EC_singular | EC_bad

subsection \<open>Modular arithmetic\<close>

text \<open>The \<open>while b > 0\<close> loop of \<open>egcd\<close>, with the six loop variables as arguments.\<close>

function egcd_loop :: "int \<Rightarrow> int \<Rightarrow> int \<Rightarrow> int \<Rightarrow> int \<Rightarrow> int \<Rightarrow> int \<times> int \<times> int" where
  "egcd_loop a b s0 s1 t0 t1 =
     (if b > 0
      then (let q = a div b; r = a mod b
            in egcd_loop b r s1 (s0 - q * s1) t1 (t0 - q * t1))
      else (s0, t0, a))"
  by pat_completeness auto
termination
  by (relation "measure (\<lambda>(a, b, s0, s1, t0, t1). nat b)") auto

definition egcd :: "int \<Rightarrow> int \<Rightarrow> int \<times> int \<times> int" where
  "egcd a b = egcd_loop a b 1 0 0 1"

text \<open>
  \<open>inv\<close> returns \<open>egcd(n, q)[0] % q\<close>. The only exception it can raise is the
  \<open>ZeroDivisionError\<close> of \<open>% q\<close> at \<open>q = 0\<close>; \<open>inv_val\<close> is the value of the
  expression where the modulus is not zero.
\<close>

definition inv_val :: "int \<Rightarrow> int \<Rightarrow> int" where
  "inv_val n q = fst (egcd n q) mod q"

definition inv_mod :: "int \<Rightarrow> int \<Rightarrow> error + int" where
  "inv_mod n q = (if q = 0 then Inl ZeroDivisionError else Inr (inv_val n q))"

text \<open>\<open>sqrt\<close>: the scan \<open>for i in range(1, q)\<close>, returning at the first hit.\<close>

definition sqrt_mod :: "int \<Rightarrow> int \<Rightarrow> error + int \<times> int" where
  "sqrt_mod n q =
     (if \<not> n < q then Inl AssertionError
      else case find (\<lambda>i. i * i mod q = n) [1..q - 1] of
             Some i \<Rightarrow> Inr (i, q - i)
           | None \<Rightarrow> Inl NotFound)"

subsection \<open>The curve\<close>

text \<open>
  \<open>Coord\<close> is a named tuple, and a named tuple is a tuple: \<open>p.x\<close> is \<open>fst p\<close>,
  \<open>p.y\<close> is \<open>snd p\<close>, and \<open>==\<close> compares componentwise.
\<close>

type_synonym Coord = "int \<times> int"

record EC =
  ec_a :: int
  ec_b :: int
  ec_q :: int

text \<open>\<open>EC.__init__\<close> with its assertion; \<open>self.zero\<close> is the same pair for every curve.\<close>

definition EC_init :: "int \<Rightarrow> int \<Rightarrow> int \<Rightarrow> error + EC" where
  "EC_init a b q =
     (if 0 < a \<and> a < q \<and> 0 < b \<and> b < q \<and> q > 2
      then Inr \<lparr>ec_a = a, ec_b = b, ec_q = q\<rparr>
      else Inl AssertionError)"

definition EC_zero :: Coord where
  "EC_zero = (0, 0)"

definition EC_is_valid :: "EC \<Rightarrow> Coord \<Rightarrow> bool" where
  "EC_is_valid ec p =
     (if p = EC_zero then True
      else (snd p ^ 2) mod ec_q ec = (fst p ^ 3 + ec_a ec * fst p + ec_b ec) mod ec_q ec)"

definition EC_at :: "EC \<Rightarrow> int \<Rightarrow> error + Coord \<times> Coord" where
  "EC_at ec x =
     (if \<not> x < ec_q ec then Inl AssertionError
      else case sqrt_mod ((x ^ 3 + ec_a ec * x + ec_b ec) mod ec_q ec) (ec_q ec) of
             Inl e \<Rightarrow> Inl e
           | Inr (y, my) \<Rightarrow> Inr ((x, y), (x, my)))"

definition EC_neg :: "EC \<Rightarrow> Coord \<Rightarrow> Coord" where
  "EC_neg ec p = (fst p, (- snd p) mod ec_q ec)"

text \<open>
  Inside a curve's methods the modulus is \<open>self.q > 2\<close>, so \<open>inv\<close> cannot raise there
  and \<open>add\<close> uses its value.
\<close>

definition EC_add :: "EC \<Rightarrow> Coord \<Rightarrow> Coord \<Rightarrow> Coord" where
  "EC_add ec p1 p2 =
     (if p1 = EC_zero then p2
      else if p2 = EC_zero then p1
      else if fst p1 = fst p2 \<and> (snd p1 \<noteq> snd p2 \<or> snd p1 = 0) then EC_zero
      else
        let l = (if fst p1 = fst p2
                 then (3 * fst p1 * fst p1 + ec_a ec) * inv_val (2 * snd p1) (ec_q ec) mod ec_q ec
                 else (snd p2 - snd p1) * inv_val (fst p2 - fst p1) (ec_q ec) mod ec_q ec);
            x = (l * l - fst p1 - fst p2) mod ec_q ec;
            y = (l * (fst p1 - x) - snd p1) mod ec_q ec
        in (x, y))"

text \<open>
  The double-and-add loop of \<open>mul\<close>: \<open>r\<close>, \<open>m2\<close> and \<open>n\<close> are the loop variables;
  \<open>n & 1\<close> is \<open>n AND 1\<close> and \<open>n >> 1\<close> is \<open>drop_bit 1 n\<close> on \<open>int\<close>.
\<close>

function mul_loop :: "EC \<Rightarrow> Coord \<Rightarrow> Coord \<Rightarrow> int \<Rightarrow> Coord" where
  "mul_loop ec r m2 n =
     (if 0 < n
      then mul_loop ec (if n AND 1 = 1 then EC_add ec r m2 else r) (EC_add ec m2 m2) (drop_bit 1 n)
      else r)"
  by pat_completeness auto
termination
  by (relation "measure (\<lambda>(ec, r, m2, n). nat n)") (auto simp: drop_bit_eq_div)

definition EC_mul :: "EC \<Rightarrow> Coord \<Rightarrow> int \<Rightarrow> Coord" where
  "EC_mul ec p n = mul_loop ec EC_zero p n"

text \<open>\<open>order\<close>: the scan \<open>for i in range(1, self.q + 1)\<close>.\<close>

definition EC_order :: "EC \<Rightarrow> Coord \<Rightarrow> error + int" where
  "EC_order ec g =
     (if \<not> (EC_is_valid ec g \<and> g \<noteq> EC_zero) then Inl AssertionError
      else case find (\<lambda>i. EC_mul ec g i = EC_zero) [1..ec_q ec] of
             Some i \<Rightarrow> Inr i
           | None \<Rightarrow> Inl InvalidOrder)"

subsection \<open>ElGamal\<close>

record ElGamal =
  eg_ec :: EC
  eg_g :: Coord
  eg_n :: int

definition ElGamal_init :: "EC \<Rightarrow> Coord \<Rightarrow> error + ElGamal" where
  "ElGamal_init ec g =
     (if \<not> EC_is_valid ec g then Inl AssertionError
      else case EC_order ec g of
             Inl e \<Rightarrow> Inl e
           | Inr n \<Rightarrow> Inr \<lparr>eg_ec = ec, eg_g = g, eg_n = n\<rparr>)"

definition ElGamal_gen :: "ElGamal \<Rightarrow> int \<Rightarrow> Coord" where
  "ElGamal_gen eg priv = EC_mul (eg_ec eg) (eg_g eg) priv"

definition ElGamal_enc :: "ElGamal \<Rightarrow> Coord \<Rightarrow> Coord \<Rightarrow> int \<Rightarrow> error + Coord" where
  "ElGamal_enc eg plain pub r =
     (if \<not> EC_is_valid (eg_ec eg) plain then Inl AssertionError
      else if \<not> EC_is_valid (eg_ec eg) pub then Inl AssertionError
      else Inr (EC_add (eg_ec eg) plain (EC_mul (eg_ec eg) pub r)))"

definition ElGamal_enc2 :: "ElGamal \<Rightarrow> Coord \<Rightarrow> Coord \<Rightarrow> int \<Rightarrow> error + Coord \<times> Coord" where
  "ElGamal_enc2 eg plain pub r =
     (if \<not> EC_is_valid (eg_ec eg) plain then Inl AssertionError
      else if \<not> EC_is_valid (eg_ec eg) pub then Inl AssertionError
      else Inr (EC_mul (eg_ec eg) (eg_g eg) r,
                EC_add (eg_ec eg) plain (EC_mul (eg_ec eg) pub r)))"

definition ElGamal_dec :: "ElGamal \<Rightarrow> Coord \<times> Coord \<Rightarrow> int \<Rightarrow> error + Coord" where
  "ElGamal_dec eg cipher priv =
     (case cipher of (c1, c2) \<Rightarrow>
        if \<not> (EC_is_valid (eg_ec eg) c1 \<and> EC_is_valid (eg_ec eg) c2) then Inl AssertionError
        else Inr (EC_add (eg_ec eg) c2 (EC_neg (eg_ec eg) (EC_mul (eg_ec eg) c1 priv))))"


subsection \<open>Message codec\<close>

text \<open>
  A Python string is its list of code points: \<open>ord\<close> and \<open>chr\<close> are the identity on
  them, and \<open>str_of\<close> embeds a literal.
\<close>

type_synonym pystr = "int list"

definition str_of :: "string \<Rightarrow> pystr" where
  "str_of s = map of_char s"

text \<open>
  \<open>map_to_point_koblitz\<close>: the scan \<open>for bit in range(1, max_bits)\<close>; the bare
  \<open>except\<close> swallows every failure of \<open>ec.at\<close>, and falling off the loop returns \<open>None\<close>.
\<close>

fun koblitz_scan :: "int \<Rightarrow> EC \<Rightarrow> int \<Rightarrow> int list \<Rightarrow> Coord option" where
  "koblitz_scan m ec max_bits [] = None"
| "koblitz_scan m ec max_bits (bt # bts) =
     (case EC_at ec ((m * max_bits + bt) mod ec_q ec) of
        Inr (p, _) \<Rightarrow> Some p
      | Inl e \<Rightarrow> koblitz_scan m ec max_bits bts)"

definition map_to_point_koblitz :: "int \<Rightarrow> EC \<Rightarrow> Coord option" where
  "map_to_point_koblitz m ec = (let max_bits = 20 in koblitz_scan m ec max_bits [1..max_bits - 1])"

definition map_to_points_koblitz :: "pystr \<Rightarrow> EC \<Rightarrow> Coord option list" where
  "map_to_points_koblitz message ec = map (\<lambda>c. map_to_point_koblitz c ec) message"

text \<open>
  \<open>round_half_even n d\<close>, for \<open>d > 0\<close>, is the integer nearest to the exact quotient
  \<open>n / d\<close>, a tie going to the even one.
\<close>

definition round_half_even :: "int \<Rightarrow> int \<Rightarrow> int" where
  "round_half_even n d =
     (let m = n div d; r = n mod d
      in if 2 * r < d then m else if d < 2 * r then m + 1 else if even m then m else m + 1)"

function bit_length :: "int \<Rightarrow> nat" where
  "bit_length n = (if n \<le> 0 then 0 else Suc (bit_length (n div 2)))"
  by pat_completeness auto
termination
  by (relation "measure nat") auto

text \<open>
  \<open>n / d\<close> on Python integers is a binary64 float: the exact quotient rounded to 53
  significant bits, a tie going to the even significand; below \<open>2 ^ -1022\<close> the spacing
  stays \<open>2 ^ -1074\<close>, and a result that rounds to \<open>2 ^ 1024\<close> or more raises
  \<open>OverflowError\<close>. \<open>py_truediv\<close> returns the float as a pair \<open>(m, e)\<close> that stands for
  \<open>m * 2 ^ e\<close>. \<open>round\<close> of a float is the nearest integer, a tie going to the even one,
  so \<open>py_round_div n d\<close> is \<open>round(n / d)\<close>.
\<close>

definition py_truediv :: "int \<Rightarrow> int \<Rightarrow> error + int \<times> int" where
  "py_truediv n d =
     (if d = 0 then Inl ZeroDivisionError
      else if n = 0 then Inr (0, 0)
      else
        let a = \<bar>n\<bar>; b = \<bar>d\<bar>;
            t = int (bit_length a) - int (bit_length b);
            e0 = (if (if 0 \<le> t then b * 2 ^ nat t \<le> a else b \<le> a * 2 ^ nat (- t)) then t else t - 1);
            e = max e0 (- 1022);
            s = 52 - e;
            m = (if 0 \<le> s then round_half_even (a * 2 ^ nat s) b
                 else round_half_even a (b * 2 ^ nat (- s)))
        in if s < 0 \<and> 2 ^ 1024 \<le> m * 2 ^ nat (- s) then Inl OverflowError
           else Inr (sgn n * sgn d * m, - s))"

definition py_round_div :: "int \<Rightarrow> int \<Rightarrow> error + int" where
  "py_round_div n d =
     (case py_truediv n d of
        Inl err \<Rightarrow> Inl err
      | Inr (m, e) \<Rightarrow> Inr (if 0 \<le> e then m * 2 ^ nat e else round_half_even m (2 ^ nat (- e))))"

text \<open>
  \<open>chr(i)\<close> raises \<open>OverflowError\<close> when \<open>i\<close> does not fit a C \<open>int\<close> and \<open>ValueError\<close>
  when it is outside \<open>range(0x110000)\<close>.
\<close>

definition py_chr :: "int \<Rightarrow> error + int" where
  "py_chr i =
     (if i < - (2 ^ 31) \<or> 2 ^ 31 \<le> i then Inl OverflowError
      else if i < 0 \<or> 1114112 \<le> i then Inl ValueError
      else Inr i)"

text \<open>
  \<open>map_to_chars\<close> takes the x-coordinates (the caller passes them as decimal strings, and
  \<open>int\<close> reads them back). Its first loop rounds every coordinate, its last loop appends
  \<open>chr(i)\<close> to the result; the first failure of a loop ends the call.
\<close>

fun round_points :: "int \<Rightarrow> int list \<Rightarrow> error + int list" where
  "round_points max_bits [] = Inr []"
| "round_points max_bits (point # points) =
     (case py_round_div point max_bits of
        Inl err \<Rightarrow> Inl err
      | Inr i \<Rightarrow>
          (case round_points max_bits points of
             Inl err \<Rightarrow> Inl err
           | Inr m \<Rightarrow> Inr (i # m)))"

fun chr_all :: "int list \<Rightarrow> error + pystr" where
  "chr_all [] = Inr []"
| "chr_all (i # plain_text) =
     (case py_chr i of
        Inl err \<Rightarrow> Inl err
      | Inr c \<Rightarrow>
          (case chr_all plain_text of
             Inl err \<Rightarrow> Inl err
           | Inr res \<Rightarrow> Inr (c # res)))"

definition map_to_chars :: "int list \<Rightarrow> error + pystr" where
  "map_to_chars points =
     (let max_bits = 20
      in case round_points max_bits points of
           Inl err \<Rightarrow> Inl err
         | Inr m \<Rightarrow> chr_all m)"

text \<open>
  \<open>encrypt_points2\<close>: the list comprehension over \<open>eg.enc2\<close>. A \<open>None\<close> left by the
  Koblitz scan has no attribute \<open>y\<close>, so \<open>is_valid\<close> raises \<open>AttributeError\<close> on it.
\<close>

fun encrypt_points2 :: "Coord option list \<Rightarrow> ElGamal \<Rightarrow> Coord \<Rightarrow> int \<Rightarrow> error + (Coord \<times> Coord) list" where
  "encrypt_points2 [] eg pub rand = Inr []"
| "encrypt_points2 (p # ps) eg pub rand =
     (case p of
        None \<Rightarrow> Inl AttributeError
      | Some pt \<Rightarrow>
          (case ElGamal_enc2 eg pt pub rand of
             Inl e \<Rightarrow> Inl e
           | Inr c \<Rightarrow>
               (case encrypt_points2 ps eg pub rand of
                  Inl e \<Rightarrow> Inl e
                | Inr cs \<Rightarrow> Inr (c # cs))))"

subsection \<open>The form's handlers\<close>

text \<open>
  \<open>is_valid_eg\<close>: the discriminant test of the form; \<open>% q\<close> raises
  \<open>ZeroDivisionError\<close> at \<open>q = 0\<close>.
\<close>

definition is_valid_eg :: "int \<Rightarrow> int \<Rightarrow> int \<Rightarrow> error + bool" where
  "is_valid_eg a b q =
     (if q = 0 then Inl ZeroDivisionError else Inr ((4 * a ^ 3 + 27 * b ^ 2) mod q \<noteq> 0))"

text \<open>
  \<open>get_eg_g\<close>: the scan \<open>for i in range(q)\<close>; an exception of \<open>ec.at\<close>, of \<open>ec.order\<close>
  or of the assertion moves on to the next \<open>i\<close>.
\<close>

fun get_eg_g_scan :: "EC \<Rightarrow> int list \<Rightarrow> Coord option" where
  "get_eg_g_scan ec [] = None"
| "get_eg_g_scan ec (i # is) =
     (case EC_at ec i of
        Inl e \<Rightarrow> get_eg_g_scan ec is
      | Inr (g, _) \<Rightarrow>
          (case EC_order ec g of
             Inl e \<Rightarrow> get_eg_g_scan ec is
           | Inr n \<Rightarrow> if n \<le> ec_q ec then Some g else get_eg_g_scan ec is))"

definition get_eg_g :: "int \<Rightarrow> EC \<Rightarrow> Coord option" where
  "get_eg_g q ec = get_eg_g_scan ec [0..q - 1]"

text \<open>The loop \<open>for i in points: point = eg.dec(i, priv)\<close> of \<open>decrypt_message\<close>.\<close>

fun decrypt_points :: "ElGamal \<Rightarrow> int \<Rightarrow> (Coord \<times> Coord) list \<Rightarrow> error + Coord list" where
  "decrypt_points eg priv [] = Inr []"
| "decrypt_points eg priv (c # cs) =
     (case ElGamal_dec eg c priv of
        Inl e \<Rightarrow> Inl e
      | Inr p \<Rightarrow>
          (case decrypt_points eg priv cs of
             Inl e \<Rightarrow> Inl e
           | Inr ps \<Rightarrow> Inr (p # ps)))"

text \<open>
  \<open>encrypt_message\<close> and \<open>decrypt_message\<close> without the widgets and the file: the first
  returns the list it writes, the second takes the list it has parsed. The private key
  \<open>5\<close> and the nonce \<open>15\<close> are the handlers' constants; \<open>message[0]\<close> in the file name
  raises \<open>IndexError\<close> on the empty message.
\<close>

definition encrypt_message :: "int \<Rightarrow> int \<Rightarrow> int \<Rightarrow> pystr \<Rightarrow> error + (Coord \<times> Coord) list" where
  "encrypt_message a b q message =
     (case is_valid_eg a b q of
        Inl e \<Rightarrow> Inl e
      | Inr ok \<Rightarrow>
         if \<not> ok then Inl EC_singular
         else
          (case EC_init a b q of
             Inl e \<Rightarrow> Inl e
           | Inr ec \<Rightarrow>
              (case get_eg_g q ec of
                 None \<Rightarrow> Inl EC_bad
               | Some g \<Rightarrow>
                  (case ElGamal_init ec g of
                     Inl e \<Rightarrow> Inl e
                   | Inr eg \<Rightarrow>
                      (let points = map_to_points_koblitz message ec;
                           priv = 5;
                           pub = ElGamal_gen eg priv
                       in case encrypt_points2 points eg pub 15 of
                            Inl e \<Rightarrow> Inl e
                          | Inr x \<Rightarrow> if message = [] then Inl IndexError else Inr x)))))"

definition decrypt_message :: "int \<Rightarrow> int \<Rightarrow> int \<Rightarrow> (Coord \<times> Coord) list \<Rightarrow> error + pystr" where
  "decrypt_message a b q points =
     (case is_valid_eg a b q of
        Inl e \<Rightarrow> Inl e
      | Inr ok \<Rightarrow>
         if \<not> ok then Inl EC_singular
         else
          (case EC_init a b q of
             Inl e \<Rightarrow> Inl e
           | Inr ec \<Rightarrow>
              (let priv = 5
               in case get_eg_g q ec of
                 None \<Rightarrow> Inl EC_bad
               | Some g \<Rightarrow>
                  (case ElGamal_init ec g of
                     Inl e \<Rightarrow> Inl e
                   | Inr eg \<Rightarrow>
                      (case decrypt_points eg priv points of
                         Inl e \<Rightarrow> Inl e
                       | Inr plain_points \<Rightarrow> map_to_chars (map fst plain_points))))))"

subsection \<open>Curves and ciphers of the examples\<close>

definition ec7 :: EC where
  "ec7 = \<lparr>ec_a = 1, ec_b = 1, ec_q = 7\<rparr>"

definition eg7 :: ElGamal where
  "eg7 = \<lparr>eg_ec = ec7, eg_g = (0, 1), eg_n = 5\<rparr>"

definition ec3 :: EC where
  "ec3 = \<lparr>ec_a = 2, ec_b = 2, ec_q = 3\<rparr>"

definition ec4093 :: EC where
  "ec4093 = \<lparr>ec_a = 9, ec_b = 7, ec_q = 4093\<rparr>"

subsection \<open>The spec's data model\<close>

text \<open>
  The spec takes \<open>q\<close> prime and the coordinates of a point in \<open>0..q-1\<close>. The source
  checks neither in the curve: primality is left to the form's validator
  (\<open>sympy.isprime\<close>), and \<open>is_valid\<close> reduces both sides of the curve equation, so it
  accepts coordinates outside that range. Both are hypotheses of the group laws, written
  here as executable predicates.
\<close>

definition is_prime :: "int \<Rightarrow> bool" where
  "is_prime q = (1 < q \<and> (\<forall>d \<in> {2..<q}. \<not> d dvd q))"

definition is_point :: "EC \<Rightarrow> Coord \<Rightarrow> bool" where
  "is_point ec p = (0 \<le> fst p \<and> fst p < ec_q ec \<and> 0 \<le> snd p \<and> snd p < ec_q ec)"

subsection \<open>The reference loop of \<open>mul\<close>\<close>

text \<open>
  The loop that \<open>mul\<close> keeps as a comment, \<open>for i in range(n): r = self.add(r, p)\<close>,
  starting from \<open>self.zero\<close>: the \<open>n\<close>-fold repeated addition of \<open>p\<close>.
\<close>

fun mul_ref :: "EC \<Rightarrow> Coord \<Rightarrow> nat \<Rightarrow> Coord" where
  "mul_ref ec p 0 = EC_zero"
| "mul_ref ec p (Suc n) = EC_add ec (mul_ref ec p n) p"

subsection \<open>Notions of the group law\<close>

text \<open>
  The proofs of the group law compute with congruences modulo \<open>q\<close> on coordinates that
  need not be reduced. \<open>slope q a p1 p2 l\<close> says that \<open>l\<close> is the slope of the line
  through \<open>p1\<close> and \<open>p2\<close> (the chord, or the tangent when they coincide);
  \<open>third_raw p1 p2 l\<close> is the sum that \<open>add\<close> computes from that slope, before
  reduction; \<open>opposite\<close> is the test of the third branch of \<open>add\<close>. A curve is good
  when \<open>q\<close> is an odd prime, \<open>b\<close> is not zero modulo \<open>q\<close> and the discriminant test of
  \<open>is_valid_eg\<close> passes; a valid point is a point of the data model that passes
  \<open>is_valid\<close>.
\<close>

definition slope :: "int \<Rightarrow> int \<Rightarrow> int \<times> int \<Rightarrow> int \<times> int \<Rightarrow> int \<Rightarrow> bool" where
  "slope q a p1 p2 l \<longleftrightarrow>
     q dvd l * (fst p2 - fst p1) - (snd p2 - snd p1)
     \<and> q dvd l * (snd p1 + snd p2) - ((fst p1)\<^sup>2 + fst p1 * fst p2 + (fst p2)\<^sup>2 + a)"

definition third_raw :: "int \<times> int \<Rightarrow> int \<times> int \<Rightarrow> int \<Rightarrow> int \<times> int" where
  "third_raw p1 p2 l =
     (l\<^sup>2 - fst p1 - fst p2, l * (fst p1 - (l\<^sup>2 - fst p1 - fst p2)) - snd p1)"

definition cong_pt :: "int \<Rightarrow> int \<times> int \<Rightarrow> int \<times> int \<Rightarrow> bool" where
  "cong_pt q p p' \<longleftrightarrow> q dvd fst p - fst p' \<and> q dvd snd p - snd p'"

definition curve_eq :: "int \<Rightarrow> int \<Rightarrow> int \<Rightarrow> int \<times> int \<Rightarrow> bool" where
  "curve_eq q a b p \<longleftrightarrow> q dvd (snd p)\<^sup>2 - ((fst p) ^ 3 + a * fst p + b)"

definition neg_raw :: "int \<times> int \<Rightarrow> int \<times> int" where
  "neg_raw p = (fst p, - snd p)"

definition good_curve :: "EC \<Rightarrow> bool" where
  "good_curve ec \<longleftrightarrow>
     is_prime (ec_q ec) \<and> 2 < ec_q ec \<and> \<not> ec_q ec dvd ec_b ec
     \<and> \<not> ec_q ec dvd 4 * ec_a ec ^ 3 + 27 * (ec_b ec)\<^sup>2"

definition on_curve :: "EC \<Rightarrow> Coord \<Rightarrow> bool" where
  "on_curve ec p \<longleftrightarrow> is_point ec p \<and> curve_eq (ec_q ec) (ec_a ec) (ec_b ec) p"

definition opposite :: "Coord \<Rightarrow> Coord \<Rightarrow> bool" where
  "opposite p1 p2 \<longleftrightarrow> fst p1 = fst p2 \<and> (snd p1 \<noteq> snd p2 \<or> snd p1 = 0)"

definition valid_pt :: "EC \<Rightarrow> Coord \<Rightarrow> bool" where
  "valid_pt ec p \<longleftrightarrow> is_point ec p \<and> EC_is_valid ec p"

subsection \<open>Checking a range without building it\<close>

text \<open>
  \<open>none_between P i j\<close> holds when no \<open>k\<close> with \<open>i \<le> k < j\<close> satisfies \<open>P\<close>; it halves
  the range, so that a scan over thousands of candidates evaluates in shallow terms.
\<close>

function none_between :: "(int \<Rightarrow> bool) \<Rightarrow> int \<Rightarrow> int \<Rightarrow> bool" where
  "none_between P i j =
     (if j \<le> i then True
      else if j = i + 1 then \<not> P i
      else none_between P i ((i + j) div 2) \<and> none_between P ((i + j) div 2) j)"
  by pat_completeness auto
termination
  by (relation "measure (\<lambda>(P, i, j). nat (j - i))") auto

declare none_between.simps [simp del]

section \<open>Modular inverse\<close>

lemma egcd_loop_bezout:
  "A * s0 + B * t0 = a \<Longrightarrow> A * s1 + B * t1 = b \<Longrightarrow>
   egcd_loop a b s0 s1 t0 t1 = (s, t, g) \<Longrightarrow> A * s + B * t = g"
proof (induction a b s0 s1 t0 t1 rule: egcd_loop.induct)
  case (1 a b s0 s1 t0 t1)
  show ?case
  proof (cases "b > 0")
    case True
    have step: "A * (s0 - a div b * s1) + B * (t0 - a div b * t1) = a mod b"
    proof -
      have "A * (s0 - a div b * s1) + B * (t0 - a div b * t1)
            = (A * s0 + B * t0) - a div b * (A * s1 + B * t1)"
        by (simp add: algebra_simps)
      also have "\<dots> = a - a div b * b"
        using "1.prems" by simp
      also have "\<dots> = a mod b"
        by (simp add: minus_div_mult_eq_mod)
      finally show ?thesis .
    qed
    from "1.prems"(3) True
    have "egcd_loop b (a mod b) s1 (s0 - a div b * s1) t1 (t0 - a div b * t1) = (s, t, g)"
      by (simp add: Let_def)
    with "1.IH"[OF True refl refl "1.prems"(2) step] show ?thesis .
  next
    case False
    with "1.prems" show ?thesis by simp
  qed
qed

lemma egcd_loop_gcd:
  "0 \<le> b \<Longrightarrow> 0 \<le> a \<or> 0 < b \<Longrightarrow> snd (snd (egcd_loop a b s0 s1 t0 t1)) = gcd a b"
proof (induction a b s0 s1 t0 t1 rule: egcd_loop.induct)
  case (1 a b s0 s1 t0 t1)
  show ?case
  proof (cases "b > 0")
    case True
    have "snd (snd (egcd_loop b (a mod b) s1 (s0 - a div b * s1) t1 (t0 - a div b * t1)))
          = gcd b (a mod b)"
      using "1.IH"[OF True refl refl] True by simp
    moreover have "gcd b (a mod b) = gcd a b"
      using gcd_red_int[of a b] by simp
    ultimately show ?thesis
      using True by (simp add: Let_def)
  next
    case False
    with "1.prems" have "b = 0" "0 \<le> a" by auto
    then show ?thesis by simp
  qed
qed

lemma egcd_bezout: "egcd a b = (s, t, g) \<Longrightarrow> a * s + b * t = g"
  unfolding egcd_def by (rule egcd_loop_bezout[of a 1 b 0 a 0 1 b]) simp_all

lemma egcd_gcd: "0 < b \<Longrightarrow> snd (snd (egcd a b)) = gcd a b"
  unfolding egcd_def by (rule egcd_loop_gcd) simp_all

lemma inv_val_range: "0 < q \<Longrightarrow> 0 \<le> inv_val n q \<and> inv_val n q < q"
  by (simp add: inv_val_def)

lemma inv_val_gcd:
  assumes "0 < q"
  shows "(n * inv_val n q) mod q = gcd n q mod q"
proof -
  obtain s t g where e: "egcd n q = (s, t, g)"
    by (cases "egcd n q") auto
  from egcd_bezout[OF e] have bz: "n * s + q * t = g" .
  from egcd_gcd[OF assms, of n] e have g: "g = gcd n q" by simp
  have "(n * inv_val n q) mod q = (n * s) mod q"
    by (simp add: inv_val_def e mod_mult_right_eq)
  also have "\<dots> = (n * s + q * t) mod q"
    by simp
  also have "\<dots> = gcd n q mod q"
    using bz g by simp
  finally show ?thesis .
qed

text \<open>
  C7 (as the code has it). \<open>inv\<close> has no failure branch for a common factor: for every
  modulus \<open>q > 0\<close> and every \<open>n\<close> it returns \<open>s\<close> with \<open>0 \<le> s < q\<close> and
  \<open>n * s \<equiv> gcd(n, q) (mod q)\<close>; so for \<open>gcd(n, q) = 1\<close> it returns an inverse, and
  for \<open>gcd(n, q) \<noteq> 1\<close> it returns a number that is not an inverse instead of failing.
\<close>

theorem inv_mod_total:
  assumes "0 < q"
  shows "\<exists>s. inv_mod n q = Inr s \<and> 0 \<le> s \<and> s < q
           \<and> (n * s) mod q = gcd n q mod q
           \<and> (gcd n q = 1 \<longrightarrow> (n * s) mod q = 1 mod q)"
  using assms inv_val_gcd[OF assms, of n] inv_val_range[OF assms, of n]
  by (auto simp: inv_mod_def)

theorem inv_mod_total_witness:
  "(0::int) < 7 \<and> gcd (3::int) 7 = 1 \<and> inv_mod 3 7 = Inr 5 \<and> (3 * 5) mod 7 = (1::int) mod 7"
proof -
  have e: "inv_mod 3 7 = Inr 5"
    by (simp add: inv_mod_def inv_val_def egcd_def Let_def)
  have g: "gcd (3::int) 7 = 1"
    by code_simp
  from inv_mod_total[of 7 3] e g show ?thesis by simp
qed

text \<open>
  C7 (as stated) fails: \<open>gcd(2, 4) = 2\<close>, and \<open>inv(2, 4)\<close> returns \<open>1\<close> instead of
  failing.
\<close>

theorem inv_mod_no_failure_counterexample:
  "gcd (2::int) 4 \<noteq> 1 \<and> inv_mod 2 4 = Inr 1"
proof
  show "gcd (2::int) 4 \<noteq> 1" by code_simp
  show "inv_mod 2 4 = Inr 1"
    by (simp add: inv_mod_def inv_val_def egcd_def Let_def)
qed


section \<open>Scans\<close>

lemma find_upto_Some:
  "find P [1..n] = Some k \<longleftrightarrow> (1 \<le> k \<and> k \<le> n \<and> P k \<and> (\<forall>j. 1 \<le> j \<and> j < k \<longrightarrow> \<not> P j))"
proof
  assume "find P [1..n] = Some k"
  then obtain i where i: "i < length [1..n]" "P ([1..n] ! i)" "k = [1..n] ! i"
      "\<forall>j<i. \<not> P ([1..n] ! j)"
    by (auto simp: find_Some_iff)
  from i(1) have le: "1 + int i \<le> n" by simp
  then have k: "k = 1 + int i" using i(3) by (simp add: nth_upto)
  have "\<not> P j" if "1 \<le> j" "j < k" for j
  proof -
    have "nat (j - 1) < i" using that k by linarith
    moreover have "[1..n] ! nat (j - 1) = j" using that k le by (simp add: nth_upto)
    ultimately show ?thesis using i(4) by metis
  qed
  with i(2) k le show "1 \<le> k \<and> k \<le> n \<and> P k \<and> (\<forall>j. 1 \<le> j \<and> j < k \<longrightarrow> \<not> P j)"
    by (simp add: nth_upto)
next
  assume r: "1 \<le> k \<and> k \<le> n \<and> P k \<and> (\<forall>j. 1 \<le> j \<and> j < k \<longrightarrow> \<not> P j)"
  let ?i = "nat (k - 1)"
  have a: "?i < length [1..n]" using r by simp
  have b: "[1..n] ! ?i = k" using r by (simp add: nth_upto)
  have c: "\<forall>j<?i. \<not> P ([1..n] ! j)"
  proof (intro allI impI)
    fix j assume "j < ?i"
    then have lt: "1 + int j < k" by linarith
    with r have "1 + int j \<le> n" by linarith
    then have "[1..n] ! j = 1 + int j" by (rule nth_upto)
    with lt r show "\<not> P ([1..n] ! j)" by simp
  qed
  have "\<exists>i<length [1..n]. P ([1..n] ! i) \<and> k = [1..n] ! i \<and> (\<forall>j<i. \<not> P ([1..n] ! j))"
    using a b c r by (intro exI[of _ ?i]) simp
  then show "find P [1..n] = Some k"
    by (simp only: find_Some_iff)
qed

lemma find_upto_None:
  "find P [1..n] = None \<longleftrightarrow> (\<forall>k. 1 \<le> k \<and> k \<le> n \<longrightarrow> \<not> P k)"
  by (auto simp: find_None_iff)

text \<open>
  C10. For every point \<open>p\<close> and every \<open>k \<le> 0\<close>, negative \<open>k\<close> included, \<open>mul(p, k)\<close>
  returns the identity: the loop body never runs.
\<close>

theorem mul_nonpositive: "k \<le> 0 \<Longrightarrow> EC_mul ec p k = EC_zero"
  by (simp add: EC_mul_def)

text \<open>
  C6. For a valid \<open>g\<close> that is not the identity, \<open>order(g)\<close> returns \<open>k\<close> exactly when
  \<open>k\<close> is the smallest integer in \<open>1..q\<close> with \<open>mul(g, k)\<close> the identity, it raises
  "Invalid order" exactly when no \<open>k\<close> in \<open>1..q\<close> has that property, and it raises
  nothing else.
\<close>

theorem EC_order_spec:
  assumes "EC_is_valid ec g" and "g \<noteq> EC_zero"
  shows "(EC_order ec g = Inr k \<longleftrightarrow>
            1 \<le> k \<and> k \<le> ec_q ec \<and> EC_mul ec g k = EC_zero
            \<and> (\<forall>j. 1 \<le> j \<and> j < k \<longrightarrow> EC_mul ec g j \<noteq> EC_zero))
       \<and> (EC_order ec g = Inl InvalidOrder \<longleftrightarrow>
            (\<forall>j. 1 \<le> j \<and> j \<le> ec_q ec \<longrightarrow> EC_mul ec g j \<noteq> EC_zero))
       \<and> EC_order ec g \<noteq> Inl AssertionError"
proof -
  let ?P = "\<lambda>i. EC_mul ec g i = EC_zero"
  have o: "EC_order ec g = (case find ?P [1..ec_q ec] of Some i \<Rightarrow> Inr i | None \<Rightarrow> Inl InvalidOrder)"
    using assms by (simp add: EC_order_def)
  have 1: "EC_order ec g = Inr k \<longleftrightarrow> find ?P [1..ec_q ec] = Some k"
    unfolding o by (auto split: option.splits)
  have 2: "EC_order ec g = Inl InvalidOrder \<longleftrightarrow> find ?P [1..ec_q ec] = None"
    unfolding o by (auto split: option.splits)
  have 3: "EC_order ec g \<noteq> Inl AssertionError"
    unfolding o by (auto split: option.splits)
  show ?thesis
    unfolding 1 2 find_upto_Some find_upto_None using 3 by simp
qed


lemma none_between_iff: "none_between P i j \<longleftrightarrow> (\<forall>k. i \<le> k \<and> k < j \<longrightarrow> \<not> P k)"
proof (induction P i j rule: none_between.induct)
  case (1 P i j)
  show ?case
  proof (cases "j \<le> i")
    case True
    then show ?thesis by (subst none_between.simps) auto
  next
    case False
    note nle = this
    show ?thesis
    proof (cases "j = i + 1")
      case True
      then have "\<And>k. i \<le> k \<and> k < j \<longleftrightarrow> k = i" by auto
      with True show ?thesis by (subst none_between.simps) simp
    next
      case False
      let ?m = "(i + j) div 2"
      have m: "i < ?m" "?m < j" using nle False by auto
      have "none_between P i j \<longleftrightarrow> none_between P i ?m \<and> none_between P ?m j"
        using nle False by (subst none_between.simps) simp
      also have "\<dots> \<longleftrightarrow> (\<forall>k. i \<le> k \<and> k < ?m \<longrightarrow> \<not> P k) \<and> (\<forall>k. ?m \<le> k \<and> k < j \<longrightarrow> \<not> P k)"
        using "1.IH"[OF nle False] by simp
      also have "\<dots> \<longleftrightarrow> (\<forall>k. i \<le> k \<and> k < j \<longrightarrow> \<not> P k)"
        using m by (meson less_le_not_le linorder_not_le order.strict_trans)
      finally show ?thesis .
    qed
  qed
qed



lemma sqrt_mod_NotFound:
  "n < q \<Longrightarrow> none_between (\<lambda>i. i * i mod q = n) 1 q \<Longrightarrow> sqrt_mod n q = Inl NotFound"
proof -
  assume a: "n < q" and nb: "none_between (\<lambda>i. i * i mod q = n) 1 q"
  from nb have "\<forall>k. 1 \<le> k \<and> k < q \<longrightarrow> k * k mod q \<noteq> n"
    unfolding none_between_iff .
  then have "find (\<lambda>i. i * i mod q = n) [1..q - 1] = None"
    by (simp add: find_upto_None)
  with a show ?thesis by (simp add: sqrt_mod_def)
qed

lemma sqrt_mod_found:
  "n < q \<Longrightarrow> 1 \<le> y \<Longrightarrow> y < q \<Longrightarrow> y * y mod q = n \<Longrightarrow>
   none_between (\<lambda>i. i * i mod q = n) 1 y \<Longrightarrow> sqrt_mod n q = Inr (y, q - y)"
proof -
  assume a: "n < q" "1 \<le> y" "y < q" "y * y mod q = n"
    and nb: "none_between (\<lambda>i. i * i mod q = n) 1 y"
  from nb have "\<forall>k. 1 \<le> k \<and> k < y \<longrightarrow> k * k mod q \<noteq> n"
    unfolding none_between_iff .
  with a have "find (\<lambda>i. i * i mod q = n) [1..q - 1] = Some y"
    by (simp add: find_upto_Some)
  with a show ?thesis by (simp add: sqrt_mod_def)
qed

lemma at4093_0: "EC_at ec4093 0 = Inl NotFound"
proof -
  have "none_between (\<lambda>i. i * i mod 4093 = 7) 1 4093" by code_simp
  then have "sqrt_mod 7 4093 = Inl NotFound" by (rule sqrt_mod_NotFound[rotated]) simp
  then show ?thesis by (simp add: EC_at_def ec4093_def)
qed

lemma at4093_1: "EC_at ec4093 1 = Inr ((1, 181), (1, 3912))"
proof -
  have "none_between (\<lambda>i. i * i mod 4093 = 17) 1 181" by code_simp
  then have "sqrt_mod 17 4093 = Inr (181, 4093 - 181)" by (rule sqrt_mod_found[rotated 4]) simp_all
  then show ?thesis by (simp add: EC_at_def ec4093_def)
qed

lemma at4093_H: "EC_at ec4093 1441 = Inr ((1441, 795), (1441, 3298))"
proof -
  have n: "(1441 ^ 3 + 9 * 1441 + 7) mod 4093 = (1703::int)" by simp
  have "none_between (\<lambda>i. i * i mod 4093 = 1703) 1 795" by code_simp
  then have "sqrt_mod 1703 4093 = Inr (795, 4093 - 795)" by (rule sqrt_mod_found[rotated 4]) simp_all
  then show ?thesis by (simp add: EC_at_def ec4093_def n)
qed


section \<open>Curve operations\<close>

lemma EC_init_D:
  "EC_init a b q = Inr ec \<Longrightarrow>
     ec_a ec = a \<and> ec_b ec = b \<and> ec_q ec = q \<and> 0 < a \<and> a < q \<and> 0 < b \<and> b < q \<and> 2 < q"
  by (auto simp: EC_init_def split: if_splits)

text \<open>
  C2. For valid \<open>plain\<close> and \<open>pub\<close> and every \<open>r\<close>, \<open>enc2\<close> returns the pair
  \<open>(mul(g, r), add(plain, mul(pub, r)))\<close> and \<open>enc\<close>, the masking-only variant, returns
  its second component.
\<close>

theorem ElGamal_enc_returns:
  assumes "EC_is_valid (eg_ec eg) plain" and "EC_is_valid (eg_ec eg) pub"
  shows "ElGamal_enc2 eg plain pub r
           = Inr (EC_mul (eg_ec eg) (eg_g eg) r,
                  EC_add (eg_ec eg) plain (EC_mul (eg_ec eg) pub r))
       \<and> ElGamal_enc eg plain pub r
           = Inr (EC_add (eg_ec eg) plain (EC_mul (eg_ec eg) pub r))"
  using assms by (simp add: ElGamal_enc2_def ElGamal_enc_def)

lemma ec7_init: "EC_init 1 1 7 = Inr ec7"
  by (simp add: EC_init_def ec7_def)

lemma eg7_init: "ElGamal_init ec7 (0, 1) = Inr eg7"
  by code_simp

theorem ElGamal_enc_returns_witness:
  "EC_is_valid (eg_ec eg7) (2, 5) \<and> EC_is_valid (eg_ec eg7) (0, 6)
   \<and> ElGamal_enc2 eg7 (2, 5) (0, 6) 3 = Inr ((2, 2), (0, 6))
   \<and> ElGamal_enc eg7 (2, 5) (0, 6) 3 = Inr (0, 6)"
proof -
  have v: "EC_is_valid (eg_ec eg7) (2, 5)" "EC_is_valid (eg_ec eg7) (0, 6)"
    by code_simp+
  have m: "EC_mul (eg_ec eg7) (eg_g eg7) 3 = (2, 2)"
          "EC_add (eg_ec eg7) (2, 5) (EC_mul (eg_ec eg7) (0, 6) 3) = (0, 6)"
    by code_simp+
  from ElGamal_enc_returns[OF v, of 3] v m show ?thesis by simp
qed

theorem mul_nonpositive_witness: "(-3::int) \<le> 0 \<and> EC_mul ec7 (2, 2) (-3) = EC_zero"
  using mul_nonpositive[of "-3" ec7 "(2, 2)"] by simp


lemma sq_neg_mod: "((q - y) ^ 2) mod q = (y ^ 2) mod (q::int)"
proof -
  have "(q - y) ^ 2 = y ^ 2 + q * (q - 2 * y)"
    by (simp add: power2_eq_square algebra_simps)
  then show ?thesis by simp
qed

lemma neg_mod_range: "0 < y \<Longrightarrow> y < q \<Longrightarrow> (- y) mod q = q - (y::int)"
  by (simp add: zmod_zminus1_eq_if)

text \<open>
  C5. On a constructed curve and for \<open>x < q\<close>: when \<open>at(x)\<close> succeeds it returns the
  points \<open>(x, y)\<close> and \<open>(x, q - y)\<close> for a root \<open>y\<close> of \<open>x^3 + a x + b\<close> in \<open>1..q-1\<close>,
  both are valid, and \<open>neg\<close> of the first is the second; when \<open>x^3 + a x + b\<close> has no
  square root modulo \<open>q\<close>, \<open>at(x)\<close> raises "not found".
\<close>

theorem EC_at_spec:
  assumes init: "EC_init a b q = Inr ec" and xq: "x < q"
  shows "(\<forall>P1 P2. EC_at ec x = Inr (P1, P2) \<longrightarrow>
            (\<exists>y. 1 \<le> y \<and> y < q \<and> (y * y) mod q = (x ^ 3 + a * x + b) mod q
                 \<and> P1 = (x, y) \<and> P2 = (x, q - y)
                 \<and> EC_is_valid ec P1 \<and> EC_is_valid ec P2 \<and> EC_neg ec P1 = P2))
       \<and> ((\<forall>i. (i * i) mod q \<noteq> (x ^ 3 + a * x + b) mod q) \<longrightarrow> EC_at ec x = Inl NotFound)"
proof -
  from EC_init_D[OF init] have ec: "ec_a ec = a" "ec_b ec = b" "ec_q ec = q" and q: "2 < q"
    by simp_all
  let ?n = "(x ^ 3 + a * x + b) mod q"
  let ?f = "find (\<lambda>i. i * i mod q = ?n) [1..q - 1]"
  have nq: "?n < q" using q by simp
  have at: "EC_at ec x = (case ?f of Some i \<Rightarrow> Inr ((x, i), (x, q - i)) | None \<Rightarrow> Inl NotFound)"
    using xq nq by (simp add: EC_at_def sqrt_mod_def ec split: option.splits)
  have 1: "\<exists>y. 1 \<le> y \<and> y < q \<and> (y * y) mod q = ?n \<and> P1 = (x, y) \<and> P2 = (x, q - y)
             \<and> EC_is_valid ec P1 \<and> EC_is_valid ec P2 \<and> EC_neg ec P1 = P2"
    if r: "EC_at ec x = Inr (P1, P2)" for P1 P2
  proof -
    from r obtain y where f: "?f = Some y" and P: "P1 = (x, y)" "P2 = (x, q - y)"
      unfolding at by (auto split: option.splits)
    from f have y: "1 \<le> y" "y \<le> q - 1" "y * y mod q = ?n"
      by (simp_all add: find_upto_Some)
    have v1: "EC_is_valid ec P1"
      using y by (simp add: EC_is_valid_def P ec power2_eq_square)
    have "((q - y) ^ 2) mod q = (y ^ 2) mod q"
      by (rule sq_neg_mod)
    also have "\<dots> = ?n"
      using y(3) by (simp add: power2_eq_square)
    finally have "((q - y) ^ 2) mod q = ?n" .
    then have v2: "EC_is_valid ec P2"
      by (simp add: EC_is_valid_def P ec)
    have "EC_neg ec P1 = P2"
      using y neg_mod_range[of y q] by (simp add: EC_neg_def P ec)
    with y v1 v2 P show ?thesis by auto
  qed
  have 2: "EC_at ec x = Inl NotFound" if "\<forall>i. (i * i) mod q \<noteq> ?n"
  proof -
    from that have "?f = None" by (simp add: find_upto_None)
    then show ?thesis unfolding at by simp
  qed
  from 1 2 show ?thesis by blast
qed

theorem EC_at_spec_witness:
  "EC_init 1 1 7 = Inr ec7 \<and> (2::int) < 7 \<and> EC_at ec7 2 = Inr ((2, 2), (2, 5))
   \<and> EC_is_valid ec7 (2, 2) \<and> EC_is_valid ec7 (2, 5) \<and> EC_neg ec7 (2, 2) = (2, 5)"
proof -
  have e: "EC_at ec7 2 = Inr ((2, 2), (2, 5))" by code_simp
  have lt: "(2::int) < 7" by simp
  from EC_at_spec[OF ec7_init lt] e ec7_init show ?thesis by auto
qed

theorem EC_order_spec_witness:
  "EC_is_valid ec7 (0, 1) \<and> (0, 1) \<noteq> EC_zero \<and> EC_order ec7 (0, 1) = Inr 5
   \<and> EC_mul ec7 (0, 1) 5 = EC_zero"
proof -
  have v: "EC_is_valid ec7 (0, 1)" by code_simp
  have nz: "(0, 1) \<noteq> EC_zero" by (simp add: EC_zero_def)
  have o: "EC_order ec7 (0, 1) = Inr 5" by code_simp
  from EC_order_spec[OF v nz, of 5] o v nz show ?thesis by simp
qed


section \<open>Koblitz encoding\<close>

lemma koblitz_scan_find:
  "koblitz_scan m ec K js =
     map_option (\<lambda>j. fst (projr (EC_at ec ((m * K + j) mod ec_q ec))))
       (find (\<lambda>j. \<not> isl (EC_at ec ((m * K + j) mod ec_q ec))) js)"
  by (induction js) (auto split: sum.splits)

lemma not_isl_iff: "\<not> isl s \<longleftrightarrow> (\<exists>v. s = Inr v)"
  by (cases s) auto

lemma isl_iff: "isl s \<longleftrightarrow> (\<exists>e. s = Inl e)"
  by (cases s) auto

text \<open>
  C8 (as the code has it). The Koblitz encoding never raises: it returns a list as long as
  the message, whose entry for the code point \<open>m\<close> is the first point of
  \<open>at((m * 20 + j) mod q)\<close> for the first \<open>j\<close> in \<open>1..19\<close> at which \<open>at\<close> succeeds,
  and \<open>None\<close> exactly when \<open>at\<close> fails for every \<open>j\<close> in \<open>1..19\<close>.
\<close>

theorem map_to_points_koblitz_spec:
  "length (map_to_points_koblitz message ec) = length message
   \<and> (\<forall>i < length message.
        (map_to_points_koblitz message ec ! i = None \<longleftrightarrow>
           (\<forall>j. 1 \<le> j \<and> j \<le> 19 \<longrightarrow>
              (\<exists>e. EC_at ec ((message ! i * 20 + j) mod ec_q ec) = Inl e)))
      \<and> (\<forall>p. map_to_points_koblitz message ec ! i = Some p \<longleftrightarrow>
           (\<exists>j p'. 1 \<le> j \<and> j \<le> 19
              \<and> EC_at ec ((message ! i * 20 + j) mod ec_q ec) = Inr (p, p')
              \<and> (\<forall>k. 1 \<le> k \<and> k < j \<longrightarrow>
                    (\<exists>e. EC_at ec ((message ! i * 20 + k) mod ec_q ec) = Inl e)))))"
proof -
  have len: "length (map_to_points_koblitz message ec) = length message"
    by (simp add: map_to_points_koblitz_def)
  have pt: "(map_to_point_koblitz m ec = None \<longleftrightarrow>
           (\<forall>j. 1 \<le> j \<and> j \<le> 19 \<longrightarrow> (\<exists>e. EC_at ec ((m * 20 + j) mod ec_q ec) = Inl e)))
      \<and> (\<forall>p. map_to_point_koblitz m ec = Some p \<longleftrightarrow>
           (\<exists>j p'. 1 \<le> j \<and> j \<le> 19 \<and> EC_at ec ((m * 20 + j) mod ec_q ec) = Inr (p, p')
              \<and> (\<forall>k. 1 \<le> k \<and> k < j \<longrightarrow> (\<exists>e. EC_at ec ((m * 20 + k) mod ec_q ec) = Inl e))))" for m
  proof -
    let ?A = "\<lambda>j. EC_at ec ((m * 20 + j) mod ec_q ec)"
    let ?f = "find (\<lambda>j. \<not> isl (?A j)) [1..19]"
    have k: "map_to_point_koblitz m ec = map_option (\<lambda>j. fst (projr (?A j))) ?f"
      by (simp add: map_to_point_koblitz_def koblitz_scan_find del: upto_rec_numeral)
    have n: "map_to_point_koblitz m ec = None \<longleftrightarrow> (\<forall>j. 1 \<le> j \<and> j \<le> 19 \<longrightarrow> (\<exists>e. ?A j = Inl e))"
      unfolding k by (simp add: find_upto_None isl_iff del: upto_rec_numeral)
    have s: "map_to_point_koblitz m ec = Some p \<longleftrightarrow>
           (\<exists>j p'. 1 \<le> j \<and> j \<le> 19 \<and> ?A j = Inr (p, p')
              \<and> (\<forall>k. 1 \<le> k \<and> k < j \<longrightarrow> (\<exists>e. ?A k = Inl e)))" for p
    proof
      assume "map_to_point_koblitz m ec = Some p"
      then obtain j where j: "?f = Some j" "p = fst (projr (?A j))"
        unfolding k by auto
      from j(1) have b: "1 \<le> j" "j \<le> 19" "\<not> isl (?A j)"
          "\<forall>k. 1 \<le> k \<and> k < j \<longrightarrow> isl (?A k)"
        by (simp_all add: find_upto_Some del: upto_rec_numeral)
      from b(3) obtain v where v: "?A j = Inr v" by (auto simp: not_isl_iff)
      with j(2) have "?A j = Inr (p, snd v)" by simp
      with b show "\<exists>j p'. 1 \<le> j \<and> j \<le> 19 \<and> ?A j = Inr (p, p')
              \<and> (\<forall>k. 1 \<le> k \<and> k < j \<longrightarrow> (\<exists>e. ?A k = Inl e))"
        by (auto simp: isl_iff)
    next
      assume "\<exists>j p'. 1 \<le> j \<and> j \<le> 19 \<and> ?A j = Inr (p, p')
              \<and> (\<forall>k. 1 \<le> k \<and> k < j \<longrightarrow> (\<exists>e. ?A k = Inl e))"
      then obtain j p' where b: "1 \<le> j" "j \<le> 19" "?A j = Inr (p, p')"
          "\<forall>k. 1 \<le> k \<and> k < j \<longrightarrow> (\<exists>e. ?A k = Inl e)"
        by blast
      then have "?f = Some j"
        by (simp add: find_upto_Some isl_iff del: upto_rec_numeral)
      with b(3) show "map_to_point_koblitz m ec = Some p"
        unfolding k by simp
    qed
    from n s show ?thesis by blast
  qed
  have nth: "map_to_points_koblitz message ec ! i = map_to_point_koblitz (message ! i) ec"
    if "i < length message" for i
    using that by (simp add: map_to_points_koblitz_def)
  show ?thesis
    using len pt nth by simp
qed

lemma ec3_init: "EC_init 2 2 3 = Inr ec3"
  by (simp add: EC_init_def ec3_def)

theorem map_to_points_koblitz_spec_witness:
  "map_to_points_koblitz (str_of ''A'') ec7 = [Some (0, 1)]
   \<and> EC_at ec7 ((65 * 20 + 1) mod ec_q ec7) = Inl NotFound
   \<and> EC_at ec7 ((65 * 20 + 2) mod ec_q ec7) = Inr ((0, 1), (0, 6))"
proof -
  have a: "EC_at ec7 ((65 * 20 + 1) mod ec_q ec7) = Inl NotFound"
    "EC_at ec7 ((65 * 20 + 2) mod ec_q ec7) = Inr ((0, 1), (0, 6))"
    by code_simp+
  have s: "str_of ''A'' = [65]" by (simp add: str_of_def)
  have "\<exists>j p'. 1 \<le> j \<and> j \<le> 19
              \<and> EC_at ec7 (([65] ! 0 * 20 + j) mod ec_q ec7) = Inr ((0, 1), p')
              \<and> (\<forall>k. 1 \<le> k \<and> k < j \<longrightarrow>
                    (\<exists>e. EC_at ec7 (([65] ! 0 * 20 + k) mod ec_q ec7) = Inl e))"
  proof (intro exI[of _ 2] exI[of _ "(0, 6)"] conjI allI impI)
    fix k :: int
    assume "1 \<le> k \<and> k < 2"
    then have "k = 1" by auto
    with a(1) show "\<exists>e. EC_at ec7 (([65] ! 0 * 20 + k) mod ec_q ec7) = Inl e" by simp
  qed (use a in simp_all)
  with map_to_points_koblitz_spec[of "[65]" ec7]
  have "map_to_points_koblitz [65] ec7 ! 0 = Some (0, 1)"
       "length (map_to_points_koblitz [65] ec7) = 1"
    by simp_all
  then have "map_to_points_koblitz [65] ec7 = [Some (0, 1)]"
    by (cases "map_to_points_koblitz [65] ec7") auto
  with a s show ?thesis by simp
qed

text \<open>
  C8 (as stated) fails: on the curve \<open>(2, 2, 3)\<close>, which has no point but the identity,
  the encodings of "A" and of "B" are both the one-element list \<open>[None]\<close>. What the
  caller gets holds neither a count nor the skipped characters.
\<close>

theorem koblitz_skip_counterexample:
  "EC_init 2 2 3 = Inr ec3
   \<and> map_to_points_koblitz (str_of ''A'') ec3 = [None]
   \<and> map_to_points_koblitz (str_of ''B'') ec3 = [None]"
proof -
  have "map_to_points_koblitz (str_of ''A'') ec3 = [None]"
       "map_to_points_koblitz (str_of ''B'') ec3 = [None]"
    by code_simp+
  with ec3_init show ?thesis by simp
qed


section \<open>The end-to-end example\<close>

lemma at4093_I: "EC_at ec4093 1461 = Inr ((1461, 1681), (1461, 2412))"
proof -
  have n: "(1461 ^ 3 + 9 * 1461 + 7) mod 4093 = (1591::int)" by simp
  have "none_between (\<lambda>i. i * i mod 4093 = 1591) 1 1681" by code_simp
  then have "sqrt_mod 1591 4093 = Inr (1681, 4093 - 1681)" by (rule sqrt_mod_found[rotated 4]) simp_all
  then show ?thesis by (simp add: EC_at_def ec4093_def n)
qed

lemma EC_order_exists:
  assumes "EC_is_valid ec g" and "g \<noteq> EC_zero" and "1 \<le> k" and "k \<le> ec_q ec"
    and "EC_mul ec g k = EC_zero"
  shows "\<exists>n. EC_order ec g = Inr n \<and> 1 \<le> n \<and> n \<le> k"
proof -
  let ?P = "\<lambda>i. EC_mul ec g i = EC_zero"
  have "find ?P [1..ec_q ec] \<noteq> None"
    using assms(3-5) by (auto simp: find_upto_None)
  then obtain n where f: "find ?P [1..ec_q ec] = Some n" by auto
  then have n: "1 \<le> n" "\<forall>j. 1 \<le> j \<and> j < n \<longrightarrow> \<not> ?P j"
    by (simp_all add: find_upto_Some)
  from n(2) assms(3,5) have "n \<le> k" by (meson not_le)
  moreover have "EC_order ec g = Inr n"
    using assms(1,2) f by (simp add: EC_order_def)
  ultimately show ?thesis using n(1) by blast
qed

lemma g4093_valid: "EC_is_valid ec4093 (1, 181)"
  by code_simp

lemma g4093_mul_q: "EC_mul ec4093 (1, 181) 4093 = EC_zero"
  by code_simp

lemma g4093_order: "\<exists>n. EC_order ec4093 (1, 181) = Inr n \<and> 1 \<le> n \<and> n \<le> 4093"
  by (rule EC_order_exists[OF g4093_valid _ _ _ g4093_mul_q])
     (simp_all add: EC_zero_def ec4093_def)

lemma get_eg_g_4093: "get_eg_g 4093 ec4093 = Some (1, 181)"
proof -
  obtain n where n: "EC_order ec4093 (1, 181) = Inr n" "n \<le> 4093"
    using g4093_order by blast
  have u: "[0..4093 - 1] = 0 # 1 # [2..(4092::int)]"
    by (simp add: upto_rec1[of 0] upto_rec1[of 1] del: upto_rec_numeral)
  show ?thesis
    unfolding get_eg_g_def u using n
    by (simp add: at4093_0 at4093_1 ec4093_def[symmetric]) (simp add: ec4093_def)
qed

lemma koblitz_HI:
  "map_to_points_koblitz (str_of ''HI'') ec4093 = [Some (1441, 795), Some (1461, 1681)]"
proof -
  have u: "[1..19] = 1 # [2..(19::int)]"
    by (simp add: upto_rec1[of 1] del: upto_rec_numeral)
  have q: "ec_q ec4093 = 4093" by (simp add: ec4093_def)
  have "koblitz_scan 72 ec4093 20 [1..19] = Some (1441, 795)"
       "koblitz_scan 73 ec4093 20 [1..19] = Some (1461, 1681)"
    unfolding u by (simp_all add: q at4093_H at4093_I del: upto_rec_numeral)
  then show ?thesis
    by (simp add: map_to_points_koblitz_def map_to_point_koblitz_def str_of_def
          del: upto_rec_numeral)
qed

lemma enc_vals:
  "EC_mul ec4093 (1, 181) 5 = (2176, 3625)"
  "EC_mul ec4093 (1, 181) 15 = (3083, 2393)"
  "EC_mul ec4093 (2176, 3625) 15 = (1751, 1097)"
  "EC_add ec4093 (1441, 795) (1751, 1097) = (313, 2390)"
  "EC_add ec4093 (1461, 1681) (1751, 1097) = (3606, 3062)"
  "EC_mul ec4093 (3083, 2393) 5 = (1751, 1097)"
  "EC_neg ec4093 (1751, 1097) = (1751, 2996)"
  "EC_add ec4093 (313, 2390) (1751, 2996) = (1441, 795)"
  "EC_add ec4093 (3606, 3062) (1751, 2996) = (1461, 1681)"
  by code_simp+

lemma valid_vals:
  "EC_is_valid ec4093 (1441, 795)"
  "EC_is_valid ec4093 (1461, 1681)"
  "EC_is_valid ec4093 (2176, 3625)"
  "EC_is_valid ec4093 (3083, 2393)"
  "EC_is_valid ec4093 (313, 2390)"
  "EC_is_valid ec4093 (3606, 3062)"
  by code_simp+

lemma decode_HI: "map_to_chars [1441, 1461] = Inr (str_of ''HI'')"
  by code_simp

lemma init_4093: "is_valid_eg 9 7 4093 = Inr True" "EC_init 9 7 4093 = Inr ec4093"
  by (simp_all add: is_valid_eg_def EC_init_def ec4093_def)

text \<open>
  C9. On the curve \<open>(9, 7, 4093)\<close> the base point found by the scan is \<open>(1, 181)\<close>;
  with private key 5 and nonce 15, encrypting the Koblitz points of "HI" with \<open>enc2\<close>,
  decrypting each pair and decoding the x-coordinates by \<open>round(x / 20)\<close> gives "HI".
\<close>

theorem end_to_end_HI:
  "encrypt_message 9 7 4093 (str_of ''HI'')
     = Inr [((3083, 2393), (313, 2390)), ((3083, 2393), (3606, 3062))]
   \<and> decrypt_message 9 7 4093 [((3083, 2393), (313, 2390)), ((3083, 2393), (3606, 3062))]
     = Inr (str_of ''HI'')"
proof -
  obtain n where n: "EC_order ec4093 (1, 181) = Inr n"
    using g4093_order by blast
  let ?eg = "\<lparr>eg_ec = ec4093, eg_g = (1, 181), eg_n = n\<rparr>"
  have eg: "ElGamal_init ec4093 (1, 181) = Inr ?eg"
    by (simp add: ElGamal_init_def g4093_valid n)
  have ne: "str_of ''HI'' \<noteq> []" by (simp add: str_of_def)
  have 1: "encrypt_message 9 7 4093 (str_of ''HI'')
     = Inr [((3083, 2393), (313, 2390)), ((3083, 2393), (3606, 3062))]"
    by (simp add: encrypt_message_def init_4093 get_eg_g_4093 eg koblitz_HI ElGamal_gen_def
          enc_vals ElGamal_enc2_def valid_vals ne Let_def)
  have 2: "decrypt_message 9 7 4093 [((3083, 2393), (313, 2390)), ((3083, 2393), (3606, 3062))]
     = Inr (str_of ''HI'')"
    by (simp add: decrypt_message_def init_4093 get_eg_g_4093 eg ElGamal_dec_def enc_vals
          valid_vals decode_HI Let_def)
  from 1 2 show ?thesis ..
qed


section \<open>Group law: congruences and commutativity\<close>

lemma is_prime_gt1: "is_prime q \<Longrightarrow> 1 < q"
  by (simp add: is_prime_def)

lemma is_prime_coprime:
  assumes "is_prime q" and "\<not> q dvd d"
  shows "gcd d q = 1"
proof -
  let ?g = "gcd d q"
  have q: "1 < q" using assms(1) by (rule is_prime_gt1)
  have g0: "0 \<le> ?g" by simp
  have gq: "?g dvd q" by simp
  have "?g \<noteq> 0" using q by simp
  with g0 have g1: "1 \<le> ?g" by linarith
  have "?g \<le> q" using gq q by (simp add: zdvd_imp_le)
  moreover have "?g \<noteq> q" using assms(2) by (metis gcd_dvd1)
  ultimately have "?g < q" by simp
  show ?thesis
  proof (rule ccontr)
    assume "?g \<noteq> 1"
    with g1 have "2 \<le> ?g" by simp
    with \<open>?g < q\<close> have "?g \<in> {2..<q}" by simp
    moreover from assms(1) have "\<forall>d \<in> {2..<q}. \<not> d dvd q" by (simp add: is_prime_def)
    ultimately have "\<not> ?g dvd q" by blast
    with gq show False by simp
  qed
qed

lemma is_prime_dvd_mult:
  assumes "is_prime q" and "q dvd a * b"
  shows "q dvd a \<or> q dvd b"
proof (cases "q dvd a")
  case False
  from is_prime_coprime[OF assms(1) False] have "coprime q a"
    by (simp add: coprime_iff_gcd_eq_1 gcd.commute)
  with assms(2) show ?thesis by (simp add: coprime_dvd_mult_right_iff)
qed simp

lemma inv_val_inverse:
  assumes "is_prime q" and "\<not> q dvd d"
  shows "q dvd d * inv_val d q - 1"
proof -
  have q: "0 < q" using is_prime_gt1[OF assms(1)] by simp
  have "(d * inv_val d q) mod q = 1 mod q"
    using inv_val_gcd[OF q, of d] is_prime_coprime[OF assms] by simp
  then show ?thesis by (simp add: mod_eq_dvd_iff)
qed

lemma slope_aux:
  fixes q :: int
  assumes "q dvd l - n * i" and "q dvd d * i - 1"
  shows "q dvd l * d - n"
  using assms by algebra

lemma slope_cong:
  assumes "is_prime q" and "\<not> q dvd d"
  shows "q dvd (n * inv_val d q mod q) * d - n"
proof -
  have "q dvd (n * inv_val d q mod q) - n * inv_val d q"
    by (simp add: mod_eq_dvd_iff[symmetric])
  moreover note inv_val_inverse[OF assms]
  ultimately show ?thesis by (rule slope_aux)
qed

lemma residue_unique:
  "0 \<le> x \<Longrightarrow> x < q \<Longrightarrow> 0 \<le> y \<Longrightarrow> y < q \<Longrightarrow> q dvd x - y \<Longrightarrow> x = (y::int)"
  by (metis mod_eq_dvd_iff mod_pos_pos_trivial)

lemma mod_cong_dvd: "q dvd (x mod q) - (x::int)"
  by (simp add: mod_eq_dvd_iff[symmetric])

lemma diff_not_dvd:
  "0 \<le> x \<Longrightarrow> x < q \<Longrightarrow> 0 \<le> y \<Longrightarrow> y < q \<Longrightarrow> x \<noteq> y \<Longrightarrow> \<not> q dvd x - (y::int)"
  using residue_unique by blast

lemma comm_slope_aux:
  fixes q :: int
  assumes "q dvd l * (x2 - x1) - (y2 - y1)" and "q dvd l' * (x1 - x2) - (y1 - y2)"
  shows "q dvd (l - l') * (x2 - x1)"
  using assms by algebra

lemma comm_y_aux:
  fixes q :: int
  assumes "q dvd l * (x2 - x1) - (y2 - y1)"
  shows "q dvd (l * (x1 - x) - y1) - (l * (x2 - x) - y2)"
  using assms by algebra

lemma EC_add_zero_left: "EC_add ec EC_zero p = p"
  by (simp add: EC_add_def)

lemma EC_add_zero_right: "EC_add ec p EC_zero = p"
  by (simp add: EC_add_def)

lemma EC_add_opposite:
  "p1 \<noteq> EC_zero \<Longrightarrow> p2 \<noteq> EC_zero \<Longrightarrow> fst p1 = fst p2 \<Longrightarrow> snd p1 \<noteq> snd p2 \<or> snd p1 = 0 \<Longrightarrow>
   EC_add ec p1 p2 = EC_zero"
  by (simp add: EC_add_def)

lemma EC_add_chord:
  "p1 \<noteq> EC_zero \<Longrightarrow> p2 \<noteq> EC_zero \<Longrightarrow> fst p1 \<noteq> fst p2 \<Longrightarrow>
   EC_add ec p1 p2 =
     (let l = (snd p2 - snd p1) * inv_val (fst p2 - fst p1) (ec_q ec) mod ec_q ec;
          x = (l * l - fst p1 - fst p2) mod ec_q ec
      in (x, (l * (fst p1 - x) - snd p1) mod ec_q ec))"
  by (simp add: EC_add_def Let_def)

lemma EC_add_tangent:
  "p \<noteq> EC_zero \<Longrightarrow> snd p \<noteq> 0 \<Longrightarrow>
   EC_add ec p p =
     (let l = (3 * fst p * fst p + ec_a ec) * inv_val (2 * snd p) (ec_q ec) mod ec_q ec;
          x = (l * l - fst p - fst p) mod ec_q ec
      in (x, (l * (fst p - x) - snd p) mod ec_q ec))"
  by (simp add: EC_add_def Let_def)

lemma add_commute_points:
  assumes q: "is_prime (ec_q ec)" and p1: "is_point ec p1" and p2: "is_point ec p2"
  shows "EC_add ec p1 p2 = EC_add ec p2 p1"
proof -
  let ?q = "ec_q ec"
  let ?x1 = "fst p1" and ?y1 = "snd p1" and ?x2 = "fst p2" and ?y2 = "snd p2"
  from p1 p2 have r: "0 \<le> ?x1" "?x1 < ?q" "0 \<le> ?y1" "?y1 < ?q"
      "0 \<le> ?x2" "?x2 < ?q" "0 \<le> ?y2" "?y2 < ?q"
    by (simp_all add: is_point_def)
  have q0: "0 < ?q" using is_prime_gt1[OF q] by simp
  consider "p1 = EC_zero" | "p2 = EC_zero" | "p1 = p2"
    | "p1 \<noteq> EC_zero" "p2 \<noteq> EC_zero" "?x1 = ?x2" "?y1 \<noteq> ?y2"
    | "p1 \<noteq> EC_zero" "p2 \<noteq> EC_zero" "?x1 \<noteq> ?x2"
    by (metis prod_eqI)
  then show ?thesis
  proof cases
    case 1
    then show ?thesis by (simp add: EC_add_zero_left EC_add_zero_right)
  next
    case 2
    then show ?thesis by (simp add: EC_add_zero_left EC_add_zero_right)
  next
    case 3
    then show ?thesis by simp
  next
    case 4
    then have "EC_add ec p1 p2 = EC_zero" "EC_add ec p2 p1 = EC_zero"
      by (simp_all add: EC_add_opposite)
    then show ?thesis by simp
  next
    case 5
    let ?l = "(?y2 - ?y1) * inv_val (?x2 - ?x1) ?q mod ?q"
    let ?l' = "(?y1 - ?y2) * inv_val (?x1 - ?x2) ?q mod ?q"
    have nd: "\<not> ?q dvd ?x2 - ?x1" "\<not> ?q dvd ?x1 - ?x2"
      using 5(3) r diff_not_dvd[of ?x2 ?q ?x1] diff_not_dvd[of ?x1 ?q ?x2] by auto
    have l: "?q dvd ?l * (?x2 - ?x1) - (?y2 - ?y1)" by (rule slope_cong[OF q nd(1)])
    have l': "?q dvd ?l' * (?x1 - ?x2) - (?y1 - ?y2)" by (rule slope_cong[OF q nd(2)])
    from l l' have "?q dvd (?l - ?l') * (?x2 - ?x1)" by (rule comm_slope_aux)
    with is_prime_dvd_mult[OF q] nd(1) have "?q dvd ?l - ?l'" by blast
    then have "?q dvd ?l' - ?l" by (simp only: dvd_diff_commute)
    then have ll: "?l' = ?l"
      using q0 by (intro residue_unique[of ?l' ?q ?l]) simp_all
    let ?x = "(?l * ?l - ?x1 - ?x2) mod ?q"
    have "?l * ?l - ?x2 - ?x1 = ?l * ?l - ?x1 - ?x2" by simp
    then have xx: "(?l * ?l - ?x2 - ?x1) mod ?q = ?x" by (simp only:)
    have "?q dvd (?l * (?x1 - ?x) - ?y1) - (?l * (?x2 - ?x) - ?y2)"
      using l by (rule comm_y_aux)
    then have yy: "(?l * (?x1 - ?x) - ?y1) mod ?q = (?l * (?x2 - ?x) - ?y2) mod ?q"
      by (simp only: mod_eq_dvd_iff)
    have a12: "EC_add ec p1 p2 = (?x, (?l * (?x1 - ?x) - ?y1) mod ?q)"
      by (simp only: EC_add_chord[OF 5] Let_def)
    have "EC_add ec p2 p1 = ((?l' * ?l' - ?x2 - ?x1) mod ?q,
            (?l' * (?x2 - (?l' * ?l' - ?x2 - ?x1) mod ?q) - ?y2) mod ?q)"
      by (simp only: EC_add_chord[OF 5(2) 5(1) 5(3)[symmetric]] Let_def)
    then have a21: "EC_add ec p2 p1 = (?x, (?l * (?x2 - ?x) - ?y2) mod ?q)"
      by (simp only: ll xx)
    show ?thesis by (simp only: a12 a21 yy)
  qed
qed

text \<open>
  C4 (as the code has it). Point addition is commutative on reduced coordinates: on a
  curve with \<open>q\<close> prime, for all points \<open>p1\<close>, \<open>p2\<close> with coordinates in \<open>0..q-1\<close>
  (the identity included, on the curve or not), \<open>add(p1, p2) = add(p2, p1)\<close>.
\<close>

theorem EC_add_commute:
  assumes "is_prime (ec_q ec)" and "is_point ec p1" and "is_point ec p2"
  shows "EC_add ec p1 p2 = EC_add ec p2 p1"
  using assms by (rule add_commute_points)

lemma is_prime_7: "is_prime 7"
  by code_simp

theorem EC_add_commute_witness:
  "is_prime (ec_q ec7) \<and> is_point ec7 (0, 1) \<and> is_point ec7 (2, 2)
   \<and> EC_add ec7 (0, 1) (2, 2) = (0, 6) \<and> EC_add ec7 (2, 2) (0, 1) = (0, 6)"
proof -
  have p: "is_prime (ec_q ec7)" using is_prime_7 by (simp add: ec7_def)
  have a: "is_point ec7 (0, 1)" "is_point ec7 (2, 2)" by (simp_all add: is_point_def ec7_def)
  have v: "EC_add ec7 (0, 1) (2, 2) = (0, 6)" by code_simp
  from EC_add_commute[OF p a] v p a show ?thesis by simp
qed

text \<open>
  C4 (as stated) fails: \<open>is_valid\<close> reduces both sides of the curve equation and does
  not look at the range of the coordinates, so on the curve \<open>(1, 1, 7)\<close> it accepts
  \<open>(7, 6)\<close>, and \<open>(-7, 6)\<close>, the second point that \<open>at(-7)\<close> returns. The difference of
  the x-coordinates of \<open>(0, 1)\<close> and such a point is a multiple of \<open>q\<close>, \<open>inv\<close> returns
  \<open>0\<close> for it, and the two orders of \<open>add\<close> give \<open>(0, 6)\<close> and \<open>(0, 1)\<close>.
\<close>

theorem EC_add_commute_counterexample:
  "EC_init 1 1 7 = Inr ec7
   \<and> EC_is_valid ec7 (0, 1) \<and> EC_is_valid ec7 (7, 6)
   \<and> EC_add ec7 (0, 1) (7, 6) = (0, 6) \<and> EC_add ec7 (7, 6) (0, 1) = (0, 1)
   \<and> EC_at ec7 (- 7) = Inr ((- 7, 1), (- 7, 6)) \<and> EC_is_valid ec7 (- 7, 6)
   \<and> EC_add ec7 (0, 1) (- 7, 6) = (0, 6) \<and> EC_add ec7 (- 7, 6) (0, 1) = (0, 1)"
  by code_simp

section \<open>Group law: the algebra of chords and tangents\<close>

lemma slopeI:
  "q dvd l * (x2 - x1) - (y2 - y1) \<Longrightarrow> q dvd l * (y1 + y2) - (x1\<^sup>2 + x1 * x2 + x2\<^sup>2 + a) \<Longrightarrow>
   slope q a (x1, y1) (x2, y2) l"
  by (simp add: slope_def)

lemma slopeD:
  assumes "slope q a (x1, y1) (x2, y2) l"
  shows "q dvd l * (x2 - x1) - (y2 - y1)" and "q dvd l * (y1 + y2) - (x1\<^sup>2 + x1 * x2 + x2\<^sup>2 + a)"
  using assms by (simp_all add: slope_def)

lemma cong_1:
  fixes q :: int
  assumes "q dvd x1 - x1'" "q dvd y1 - y1'" "q dvd x2 - x2'" "q dvd y2 - y2'" "q dvd l - l'"
    and "q dvd l * (x2 - x1) - (y2 - y1)"
  shows "q dvd l' * (x2' - x1') - (y2' - y1')"
  using assms by algebra

lemma cong_2:
  fixes q :: int
  assumes "q dvd x1 - x1'" "q dvd y1 - y1'" "q dvd x2 - x2'" "q dvd y2 - y2'" "q dvd l - l'"
    and "q dvd a - a'"
    and "q dvd l * (y1 + y2) - (x1\<^sup>2 + x1 * x2 + x2\<^sup>2 + a)"
  shows "q dvd l' * (y1' + y2') - (x1'\<^sup>2 + x1' * x2' + x2'\<^sup>2 + a')"
  using assms by algebra

lemma closure_alg:
  fixes q :: int
  assumes "q dvd y1\<^sup>2 - (x1 ^ 3 + a * x1 + b)"
    and "q dvd l * (x2 - x1) - (y2 - y1)"
    and "q dvd l * (y1 + y2) - (x1\<^sup>2 + x1 * x2 + x2\<^sup>2 + a)"
  shows "q dvd (l * (x1 - (l\<^sup>2 - x1 - x2)) - y1)\<^sup>2
           - ((l\<^sup>2 - x1 - x2) ^ 3 + a * (l\<^sup>2 - x1 - x2) + b)"
  using assms by algebra

lemma curve_cong_alg:
  fixes q :: int
  assumes "q dvd x - x'" "q dvd y - y'" "q dvd y\<^sup>2 - (x ^ 3 + a * x + b)"
  shows "q dvd y'\<^sup>2 - (x' ^ 3 + a * x' + b)"
  using assms by algebra

lemma third_cong_alg:
  fixes q :: int
  assumes "q dvd x1 - x1'" "q dvd y1 - y1'" "q dvd x2 - x2'" "q dvd l - l'"
  shows "q dvd (l\<^sup>2 - x1 - x2) - (l'\<^sup>2 - x1' - x2')"
    and "q dvd (l * (x1 - (l\<^sup>2 - x1 - x2)) - y1) - (l' * (x1' - (l'\<^sup>2 - x1' - x2')) - y1')"
  using assms by algebra+

lemma disc_alg:
  fixes q :: int
  assumes "q dvd 3 * x\<^sup>2 + a" and "q dvd x ^ 3 + a * x + b"
  shows "q dvd 4 * a ^ 3 + 27 * b\<^sup>2"
  using assms by algebra

lemma core_x_cc:
  fixes q :: int
  assumes "q dvd l2 * (y2 + (y2 + l2 * (x3 - x2))) - (x2^2 + x2 * x3 + x3^2) - (l1 * ((y2 - l1 * (x2 - x1)) + y2) - (x1^2 + x1 * x2 + x2^2))"
  shows "q dvd ((y2 + l2 * (x3 - x2)) - (l1 * (x1 - (l1^2 - x1 - x2)) - (y2 - l1 * (x2 - x1))))^2 * ((l2^2 - x2 - x3) - x1)^2 - ((l2 * (x2 - (l2^2 - x2 - x3)) - y2) - (y2 - l1 * (x2 - x1)))^2 * (x3 - (l1^2 - x1 - x2))^2 - ((l1^2 - x1 - x2) + x3 - x1 - (l2^2 - x2 - x3)) * (x3 - (l1^2 - x1 - x2))^2 * ((l2^2 - x2 - x3) - x1)^2"
  using assms by algebra

lemma core_y_cc:
  fixes q :: int
  assumes "q dvd l2 * (y2 + (y2 + l2 * (x3 - x2))) - (x2^2 + x2 * x3 + x3^2) - (l1 * ((y2 - l1 * (x2 - x1)) + y2) - (x1^2 + x1 * x2 + x2^2))"
  shows "q dvd ((l2^2 - x2 - x3) - x1) * (((y2 + l2 * (x3 - x2)) - (l1 * (x1 - (l1^2 - x1 - x2)) - (y2 - l1 * (x2 - x1)))) * ((l1^2 - x1 - x2) * (x3 - (l1^2 - x1 - x2))^2 - (((y2 + l2 * (x3 - x2)) - (l1 * (x1 - (l1^2 - x1 - x2)) - (y2 - l1 * (x2 - x1))))^2 - ((l1^2 - x1 - x2) + x3) * (x3 - (l1^2 - x1 - x2))^2)) - (l1 * (x1 - (l1^2 - x1 - x2)) - (y2 - l1 * (x2 - x1))) * (x3 - (l1^2 - x1 - x2))^3) - (x3 - (l1^2 - x1 - x2)) * ((l2 * (x2 - (l2^2 - x2 - x3)) - y2) - (y2 - l1 * (x2 - x1))) * (x1 * (x3 - (l1^2 - x1 - x2))^2 - (((y2 + l2 * (x3 - x2)) - (l1 * (x1 - (l1^2 - x1 - x2)) - (y2 - l1 * (x2 - x1))))^2 - ((l1^2 - x1 - x2) + x3) * (x3 - (l1^2 - x1 - x2))^2)) + (y2 - l1 * (x2 - x1)) * (x3 - (l1^2 - x1 - x2))^3 * ((l2^2 - x2 - x3) - x1)"
  using assms by algebra

lemma core_x_ct:
  fixes q :: int
  assumes "q dvd l2 * (y2 + (y2 + l2 * (x3 - x2))) - (x2^2 + x2 * x3 + x3^2) - (l1 * ((y2 - l1 * (x2 - x1)) + y2) - (x1^2 + x1 * x2 + x2^2))"
  shows "q dvd ((y2 + l2 * (x3 - x2)) - (l1 * (x1 - (l1^2 - x1 - x2)) - (y2 - l1 * (x2 - x1))))^2 * ((y2 - l1 * (x2 - x1)) + (l2 * (x2 - (l2^2 - x2 - x3)) - y2))^2 - (x1^2 + x1 * (l2^2 - x2 - x3) + (l2^2 - x2 - x3)^2 + (l1 * ((y2 - l1 * (x2 - x1)) + y2) - (x1^2 + x1 * x2 + x2^2)))^2 * (x3 - (l1^2 - x1 - x2))^2 - ((l1^2 - x1 - x2) + x3 - x1 - (l2^2 - x2 - x3)) * (x3 - (l1^2 - x1 - x2))^2 * ((y2 - l1 * (x2 - x1)) + (l2 * (x2 - (l2^2 - x2 - x3)) - y2))^2"
  using assms by algebra

lemma core_y_ct:
  fixes q :: int
  assumes "q dvd l2 * (y2 + (y2 + l2 * (x3 - x2))) - (x2^2 + x2 * x3 + x3^2) - (l1 * ((y2 - l1 * (x2 - x1)) + y2) - (x1^2 + x1 * x2 + x2^2))"
  shows "q dvd ((y2 - l1 * (x2 - x1)) + (l2 * (x2 - (l2^2 - x2 - x3)) - y2)) * (((y2 + l2 * (x3 - x2)) - (l1 * (x1 - (l1^2 - x1 - x2)) - (y2 - l1 * (x2 - x1)))) * ((l1^2 - x1 - x2) * (x3 - (l1^2 - x1 - x2))^2 - (((y2 + l2 * (x3 - x2)) - (l1 * (x1 - (l1^2 - x1 - x2)) - (y2 - l1 * (x2 - x1))))^2 - ((l1^2 - x1 - x2) + x3) * (x3 - (l1^2 - x1 - x2))^2)) - (l1 * (x1 - (l1^2 - x1 - x2)) - (y2 - l1 * (x2 - x1))) * (x3 - (l1^2 - x1 - x2))^3) - (x3 - (l1^2 - x1 - x2)) * (x1^2 + x1 * (l2^2 - x2 - x3) + (l2^2 - x2 - x3)^2 + (l1 * ((y2 - l1 * (x2 - x1)) + y2) - (x1^2 + x1 * x2 + x2^2))) * (x1 * (x3 - (l1^2 - x1 - x2))^2 - (((y2 + l2 * (x3 - x2)) - (l1 * (x1 - (l1^2 - x1 - x2)) - (y2 - l1 * (x2 - x1))))^2 - ((l1^2 - x1 - x2) + x3) * (x3 - (l1^2 - x1 - x2))^2)) + (y2 - l1 * (x2 - x1)) * (x3 - (l1^2 - x1 - x2))^3 * ((y2 - l1 * (x2 - x1)) + (l2 * (x2 - (l2^2 - x2 - x3)) - y2))"
  using assms by algebra

lemma core_x_tc:
  fixes q :: int
  assumes "q dvd l2 * (y2 + (y2 + l2 * (x3 - x2))) - (x2^2 + x2 * x3 + x3^2) - (l1 * ((y2 - l1 * (x2 - x1)) + y2) - (x1^2 + x1 * x2 + x2^2))"
  shows "q dvd (x3^2 + x3 * (l1^2 - x1 - x2) + (l1^2 - x1 - x2)^2 + (l1 * ((y2 - l1 * (x2 - x1)) + y2) - (x1^2 + x1 * x2 + x2^2)))^2 * ((l2^2 - x2 - x3) - x1)^2 - ((l2 * (x2 - (l2^2 - x2 - x3)) - y2) - (y2 - l1 * (x2 - x1)))^2 * ((y2 + l2 * (x3 - x2)) + (l1 * (x1 - (l1^2 - x1 - x2)) - (y2 - l1 * (x2 - x1))))^2 - ((l1^2 - x1 - x2) + x3 - x1 - (l2^2 - x2 - x3)) * ((y2 + l2 * (x3 - x2)) + (l1 * (x1 - (l1^2 - x1 - x2)) - (y2 - l1 * (x2 - x1))))^2 * ((l2^2 - x2 - x3) - x1)^2"
  using assms by algebra

lemma core_y_tc:
  fixes q :: int
  assumes "q dvd l2 * (y2 + (y2 + l2 * (x3 - x2))) - (x2^2 + x2 * x3 + x3^2) - (l1 * ((y2 - l1 * (x2 - x1)) + y2) - (x1^2 + x1 * x2 + x2^2))"
  shows "q dvd ((l2^2 - x2 - x3) - x1) * ((x3^2 + x3 * (l1^2 - x1 - x2) + (l1^2 - x1 - x2)^2 + (l1 * ((y2 - l1 * (x2 - x1)) + y2) - (x1^2 + x1 * x2 + x2^2))) * ((l1^2 - x1 - x2) * ((y2 + l2 * (x3 - x2)) + (l1 * (x1 - (l1^2 - x1 - x2)) - (y2 - l1 * (x2 - x1))))^2 - ((x3^2 + x3 * (l1^2 - x1 - x2) + (l1^2 - x1 - x2)^2 + (l1 * ((y2 - l1 * (x2 - x1)) + y2) - (x1^2 + x1 * x2 + x2^2)))^2 - ((l1^2 - x1 - x2) + x3) * ((y2 + l2 * (x3 - x2)) + (l1 * (x1 - (l1^2 - x1 - x2)) - (y2 - l1 * (x2 - x1))))^2)) - (l1 * (x1 - (l1^2 - x1 - x2)) - (y2 - l1 * (x2 - x1))) * ((y2 + l2 * (x3 - x2)) + (l1 * (x1 - (l1^2 - x1 - x2)) - (y2 - l1 * (x2 - x1))))^3) - ((y2 + l2 * (x3 - x2)) + (l1 * (x1 - (l1^2 - x1 - x2)) - (y2 - l1 * (x2 - x1)))) * ((l2 * (x2 - (l2^2 - x2 - x3)) - y2) - (y2 - l1 * (x2 - x1))) * (x1 * ((y2 + l2 * (x3 - x2)) + (l1 * (x1 - (l1^2 - x1 - x2)) - (y2 - l1 * (x2 - x1))))^2 - ((x3^2 + x3 * (l1^2 - x1 - x2) + (l1^2 - x1 - x2)^2 + (l1 * ((y2 - l1 * (x2 - x1)) + y2) - (x1^2 + x1 * x2 + x2^2)))^2 - ((l1^2 - x1 - x2) + x3) * ((y2 + l2 * (x3 - x2)) + (l1 * (x1 - (l1^2 - x1 - x2)) - (y2 - l1 * (x2 - x1))))^2)) + (y2 - l1 * (x2 - x1)) * ((y2 + l2 * (x3 - x2)) + (l1 * (x1 - (l1^2 - x1 - x2)) - (y2 - l1 * (x2 - x1))))^3 * ((l2^2 - x2 - x3) - x1)"
  using assms by algebra

lemma core_x_tt:
  fixes q :: int
  assumes "q dvd l2 * (y2 + (y2 + l2 * (x3 - x2))) - (x2^2 + x2 * x3 + x3^2) - (l1 * ((y2 - l1 * (x2 - x1)) + y2) - (x1^2 + x1 * x2 + x2^2))"
  shows "q dvd (x3^2 + x3 * (l1^2 - x1 - x2) + (l1^2 - x1 - x2)^2 + (l1 * ((y2 - l1 * (x2 - x1)) + y2) - (x1^2 + x1 * x2 + x2^2)))^2 * ((y2 - l1 * (x2 - x1)) + (l2 * (x2 - (l2^2 - x2 - x3)) - y2))^2 - (x1^2 + x1 * (l2^2 - x2 - x3) + (l2^2 - x2 - x3)^2 + (l1 * ((y2 - l1 * (x2 - x1)) + y2) - (x1^2 + x1 * x2 + x2^2)))^2 * ((y2 + l2 * (x3 - x2)) + (l1 * (x1 - (l1^2 - x1 - x2)) - (y2 - l1 * (x2 - x1))))^2 - ((l1^2 - x1 - x2) + x3 - x1 - (l2^2 - x2 - x3)) * ((y2 + l2 * (x3 - x2)) + (l1 * (x1 - (l1^2 - x1 - x2)) - (y2 - l1 * (x2 - x1))))^2 * ((y2 - l1 * (x2 - x1)) + (l2 * (x2 - (l2^2 - x2 - x3)) - y2))^2"
  using assms by algebra

lemma core_y_tt:
  fixes q :: int
  assumes "q dvd l2 * (y2 + (y2 + l2 * (x3 - x2))) - (x2^2 + x2 * x3 + x3^2) - (l1 * ((y2 - l1 * (x2 - x1)) + y2) - (x1^2 + x1 * x2 + x2^2))"
  shows "q dvd ((y2 - l1 * (x2 - x1)) + (l2 * (x2 - (l2^2 - x2 - x3)) - y2)) * ((x3^2 + x3 * (l1^2 - x1 - x2) + (l1^2 - x1 - x2)^2 + (l1 * ((y2 - l1 * (x2 - x1)) + y2) - (x1^2 + x1 * x2 + x2^2))) * ((l1^2 - x1 - x2) * ((y2 + l2 * (x3 - x2)) + (l1 * (x1 - (l1^2 - x1 - x2)) - (y2 - l1 * (x2 - x1))))^2 - ((x3^2 + x3 * (l1^2 - x1 - x2) + (l1^2 - x1 - x2)^2 + (l1 * ((y2 - l1 * (x2 - x1)) + y2) - (x1^2 + x1 * x2 + x2^2)))^2 - ((l1^2 - x1 - x2) + x3) * ((y2 + l2 * (x3 - x2)) + (l1 * (x1 - (l1^2 - x1 - x2)) - (y2 - l1 * (x2 - x1))))^2)) - (l1 * (x1 - (l1^2 - x1 - x2)) - (y2 - l1 * (x2 - x1))) * ((y2 + l2 * (x3 - x2)) + (l1 * (x1 - (l1^2 - x1 - x2)) - (y2 - l1 * (x2 - x1))))^3) - ((y2 + l2 * (x3 - x2)) + (l1 * (x1 - (l1^2 - x1 - x2)) - (y2 - l1 * (x2 - x1)))) * (x1^2 + x1 * (l2^2 - x2 - x3) + (l2^2 - x2 - x3)^2 + (l1 * ((y2 - l1 * (x2 - x1)) + y2) - (x1^2 + x1 * x2 + x2^2))) * (x1 * ((y2 + l2 * (x3 - x2)) + (l1 * (x1 - (l1^2 - x1 - x2)) - (y2 - l1 * (x2 - x1))))^2 - ((x3^2 + x3 * (l1^2 - x1 - x2) + (l1^2 - x1 - x2)^2 + (l1 * ((y2 - l1 * (x2 - x1)) + y2) - (x1^2 + x1 * x2 + x2^2)))^2 - ((l1^2 - x1 - x2) + x3) * ((y2 + l2 * (x3 - x2)) + (l1 * (x1 - (l1^2 - x1 - x2)) - (y2 - l1 * (x2 - x1))))^2)) + (y2 - l1 * (x2 - x1)) * ((y2 + l2 * (x3 - x2)) + (l1 * (x1 - (l1^2 - x1 - x2)) - (y2 - l1 * (x2 - x1))))^3 * ((y2 - l1 * (x2 - x1)) + (l2 * (x2 - (l2^2 - x2 - x3)) - y2))"
  using assms by algebra

lemma prime_cancel:
  assumes "is_prime q" and "\<not> q dvd e" and "q dvd e * g"
  shows "q dvd g"
  using is_prime_dvd_mult[OF assms(1,3)] assms(2) by blast

lemma prime_cancel_pow:
  assumes "is_prime q" and "\<not> q dvd e" and "q dvd e ^ n * g"
  shows "q dvd g"
  using assms(3)
proof (induction n)
  case 0
  then show ?case by simp
next
  case (Suc n)
  then have "q dvd e * (e ^ n * g)" by (simp add: mult.assoc)
  then have "q dvd e ^ n * g" by (rule prime_cancel[OF assms(1,2)])
  then show ?case by (rule Suc.IH)
qed

lemma finish_x_alg:
  fixes q :: int
  assumes "q dvd l3 * E3 - F3" and "q dvd l4 * E4 - F4"
    and "q dvd F3^2 * E4^2 - F4^2 * E3^2 - (X4 + x3 - x1 - X5) * E3^2 * E4^2"
  shows "q dvd E3^2 * (E4^2 * ((l3^2 - X4 - x3) - (l4^2 - x1 - X5)))"
  using assms by algebra

lemma finish_y_alg:
  fixes q :: int
  assumes "q dvd l3 * E3 - F3" and "q dvd l4 * E4 - F4"
    and "q dvd E4 * (F3 * (X4 * E3^2 - (F3^2 - (X4 + x3) * E3^2)) - Y4 * E3^3) - E3 * F4 * (x1 * E3^2 - (F3^2 - (X4 + x3) * E3^2)) + Y1 * E3^3 * E4"
  shows "q dvd E3^3 * (E4 * ((l3 * (X4 - (l3^2 - X4 - x3)) - Y4) - (l4 * (x1 - (l3^2 - X4 - x3)) - Y1)))"
  using assms by algebra

lemma finish_y2_alg:
  fixes q :: int
  assumes "q dvd X6 - X7"
    and "q dvd (l3 * (X4 - X6) - Y4) - (l4 * (x1 - X6) - Y1)"
  shows "q dvd (l3 * (X4 - X6) - Y4) - (l4 * (x1 - X7) - Y1)"
  using assms by algebra

lemma assoc_finish:
  fixes q :: int
  assumes pr: "is_prime q"
    and r3: "q dvd l3 * E3 - F3" and n3: "\<not> q dvd E3"
    and r4: "q dvd l4 * E4 - F4" and n4: "\<not> q dvd E4"
    and gx: "q dvd F3^2 * E4^2 - F4^2 * E3^2 - (X4 + x3 - x1 - X5) * E3^2 * E4^2"
    and gy: "q dvd E4 * (F3 * (X4 * E3^2 - (F3^2 - (X4 + x3) * E3^2)) - Y4 * E3^3) - E3 * F4 * (x1 * E3^2 - (F3^2 - (X4 + x3) * E3^2)) + Y1 * E3^3 * E4"
  shows "q dvd (l3^2 - X4 - x3) - (l4^2 - x1 - X5)"
    and "q dvd (l3 * (X4 - (l3^2 - X4 - x3)) - Y4) - (l4 * (x1 - (l4^2 - x1 - X5)) - Y1)"
proof -
  from finish_x_alg[OF r3 r4 gx]
  have "q dvd E4^2 * ((l3^2 - X4 - x3) - (l4^2 - x1 - X5))"
    by (rule prime_cancel_pow[OF pr n3])
  then show x: "q dvd (l3^2 - X4 - x3) - (l4^2 - x1 - X5)"
    by (rule prime_cancel_pow[OF pr n4])
  from finish_y_alg[OF r3 r4 gy]
  have "q dvd E4 * ((l3 * (X4 - (l3^2 - X4 - x3)) - Y4) - (l4 * (x1 - (l3^2 - X4 - x3)) - Y1))"
    by (rule prime_cancel_pow[OF pr n3])
  then have "q dvd (l3 * (X4 - (l3^2 - X4 - x3)) - Y4) - (l4 * (x1 - (l3^2 - X4 - x3)) - Y1)"
    by (rule prime_cancel[OF pr n4])
  with x show "q dvd (l3 * (X4 - (l3^2 - X4 - x3)) - Y4) - (l4 * (x1 - (l4^2 - x1 - X5)) - Y1)"
    by (rule finish_y2_alg)
qed


lemma k1: fixes q :: int
  assumes "q dvd l1 * (x2 - x1) - (y2 - y1)"
  shows "q dvd y1 - (y2 - l1 * (x2 - x1))"
  using assms by algebra

lemma k2: fixes q :: int
  assumes "q dvd l2 * (x3 - x2) - (y3 - y2)"
  shows "q dvd y3 - (y2 + l2 * (x3 - x2))"
  using assms by algebra

lemma k3: fixes q :: int
  assumes "q dvd l1 * (y1 + y2) - (x1^2 + x1 * x2 + x2^2 + a)" and "q dvd y1 - Y1"
  shows "q dvd a - (l1 * (Y1 + y2) - (x1^2 + x1 * x2 + x2^2))"
  using assms by algebra

lemma k4: fixes q :: int
  assumes "q dvd l2 * (y2 + y3) - (x2^2 + x2 * x3 + x3^2 + a)" and "q dvd y3 - Y3" and "q dvd a - A"
  shows "q dvd l2 * (y2 + Y3) - (x2^2 + x2 * x3 + x3^2) - A"
  using assms by algebra

lemma k5: fixes q :: int
  assumes "q dvd l3 * (x3 - X4) - (y3 - S)" and "q dvd y3 - Y3" and "q dvd S - Y4"
  shows "q dvd l3 * (x3 - X4) - (Y3 - Y4)"
  using assms by algebra

lemma k6: fixes q :: int
  assumes "q dvd l3 * (S + y3) - (X4^2 + X4 * x3 + x3^2 + a)" and "q dvd y3 - Y3" and "q dvd S - Y4"
    and "q dvd a - A"
  shows "q dvd l3 * (Y3 + Y4) - (x3^2 + x3 * X4 + X4^2 + A)"
  using assms by algebra

lemma k7: fixes q :: int
  assumes "q dvd l4 * (X5 - x1) - (Y5 - y1)" and "q dvd y1 - Y1"
  shows "q dvd l4 * (X5 - x1) - (Y5 - Y1)"
  using assms by algebra

lemma k8: fixes q :: int
  assumes "q dvd l4 * (y1 + Y5) - (x1^2 + x1 * X5 + X5^2 + a)" and "q dvd y1 - Y1" and "q dvd a - A"
  shows "q dvd l4 * (Y1 + Y5) - (x1^2 + x1 * X5 + X5^2 + A)"
  using assms by algebra

lemma k9: fixes q :: int
  assumes "q dvd y1 - Y1"
  shows "q dvd (l1 * (x1 - X4) - y1) - (l1 * (x1 - X4) - Y1)"
  using assms by algebra

lemma k10: fixes q :: int
  assumes "q dvd Y3 + Y4" and "q dvd y3 - Y3" and "q dvd S - Y4"
  shows "q dvd S + y3"
  using assms by algebra

lemma k11: fixes q :: int
  assumes "q dvd Y1 + Y5" and "q dvd y1 - Y1"
  shows "q dvd y1 + Y5"
  using assms by algebra

lemma k12: fixes q :: int
  assumes "q dvd (u - Y4) - (v - Y1)" and "q dvd y1 - Y1" and "q dvd S - Y4"
  shows "q dvd (u - S) - (v - y1)"
  using assms by algebra

lemma assoc_raw:
  assumes pr: "is_prime q"
    and s1: "slope q a (x1, y1) (x2, y2) l1"
    and s2: "slope q a (x2, y2) (x3, y3) l2"
    and s3: "slope q a (third_raw (x1, y1) (x2, y2) l1) (x3, y3) l3"
    and s4: "slope q a (x1, y1) (third_raw (x2, y2) (x3, y3) l2) l4"
    and n3: "\<not> q dvd x3 - fst (third_raw (x1, y1) (x2, y2) l1)
             \<or> \<not> q dvd snd (third_raw (x1, y1) (x2, y2) l1) + y3"
    and n4: "\<not> q dvd fst (third_raw (x2, y2) (x3, y3) l2) - x1
             \<or> \<not> q dvd y1 + snd (third_raw (x2, y2) (x3, y3) l2)"
  shows "cong_pt q (third_raw (third_raw (x1, y1) (x2, y2) l1) (x3, y3) l3)
                   (third_raw (x1, y1) (third_raw (x2, y2) (x3, y3) l2) l4)"
proof -
  define Y1 where "Y1 = y2 - l1 * (x2 - x1)"
  define Y3 where "Y3 = y2 + l2 * (x3 - x2)"
  define A where "A = l1 * (Y1 + y2) - (x1^2 + x1 * x2 + x2^2)"
  define X4 where "X4 = l1^2 - x1 - x2"
  define Y4 where "Y4 = l1 * (x1 - X4) - Y1"
  define X5 where "X5 = l2^2 - x2 - x3"
  define Y5 where "Y5 = l2 * (x2 - X5) - y2"
  define S where "S = l1 * (x1 - X4) - y1"
  note defs = Y1_def Y3_def A_def X4_def Y4_def X5_def Y5_def
  have t1: "third_raw (x1, y1) (x2, y2) l1 = (X4, S)"
    by (simp add: third_raw_def X4_def S_def)
  have t2: "third_raw (x2, y2) (x3, y3) l2 = (X5, Y5)"
    by (simp add: third_raw_def X5_def Y5_def)
  note i1 = slopeD[OF s1] and i2 = slopeD[OF s2]
    and i3 = slopeD[OF s3[unfolded t1]] and i4 = slopeD[OF s4[unfolded t2]]
  have cY1: "q dvd y1 - Y1" unfolding Y1_def by (rule k1[OF i1(1)])
  have cY3: "q dvd y3 - Y3" unfolding Y3_def by (rule k2[OF i2(1)])
  have cA: "q dvd a - A" unfolding A_def by (rule k3[OF i1(2) cY1])
  have C: "q dvd l2 * (y2 + Y3) - (x2^2 + x2 * x3 + x3^2) - A"
    by (rule k4[OF i2(2) cY3 cA])
  have cS: "q dvd S - Y4" unfolding S_def Y4_def by (rule k9[OF cY1])
  have r3c: "q dvd l3 * (x3 - X4) - (Y3 - Y4)" by (rule k5[OF i3(1) cY3 cS])
  have r3t: "q dvd l3 * (Y3 + Y4) - (x3^2 + x3 * X4 + X4^2 + A)" by (rule k6[OF i3(2) cY3 cS cA])
  have r4c: "q dvd l4 * (X5 - x1) - (Y5 - Y1)" by (rule k7[OF i4(1) cY1])
  have r4t: "q dvd l4 * (Y1 + Y5) - (x1^2 + x1 * X5 + X5^2 + A)" by (rule k8[OF i4(2) cY1 cA])
  have m3: "\<not> q dvd x3 - X4 \<or> \<not> q dvd Y3 + Y4"
    using n3 k10[OF _ cY3 cS] unfolding t1 by auto
  have m4: "\<not> q dvd X5 - x1 \<or> \<not> q dvd Y1 + Y5"
    using n4 k11[OF _ cY1] unfolding t2 by auto
  have fin: "q dvd (l3^2 - X4 - x3) - (l4^2 - x1 - X5)
      \<and> q dvd (l3 * (X4 - (l3^2 - X4 - x3)) - Y4) - (l4 * (x1 - (l4^2 - x1 - X5)) - Y1)"
  proof -
    consider (cc) "\<not> q dvd x3 - X4" "\<not> q dvd X5 - x1"
      | (ct) "\<not> q dvd x3 - X4" "\<not> q dvd Y1 + Y5"
      | (tc) "\<not> q dvd Y3 + Y4" "\<not> q dvd X5 - x1"
      | (tt) "\<not> q dvd Y3 + Y4" "\<not> q dvd Y1 + Y5"
      using m3 m4 by blast
    then show ?thesis
    proof cases
      case cc
      note gx = core_x_cc[OF C[unfolded defs]]
      note gy = core_y_cc[OF C[unfolded defs]]
      note f = assoc_finish[OF pr r3c[unfolded defs] cc(1)[unfolded defs]
          r4c[unfolded defs] cc(2)[unfolded defs] gx gy]
      from f(1) f(2) show ?thesis unfolding defs by (rule conjI)
    next
      case ct
      note gx = core_x_ct[OF C[unfolded defs]]
      note gy = core_y_ct[OF C[unfolded defs]]
      note f = assoc_finish[OF pr r3c[unfolded defs] ct(1)[unfolded defs]
          r4t[unfolded defs] ct(2)[unfolded defs] gx gy]
      from f(1) f(2) show ?thesis unfolding defs by (rule conjI)
    next
      case tc
      note gx = core_x_tc[OF C[unfolded defs]]
      note gy = core_y_tc[OF C[unfolded defs]]
      note f = assoc_finish[OF pr r3t[unfolded defs] tc(1)[unfolded defs]
          r4c[unfolded defs] tc(2)[unfolded defs] gx gy]
      from f(1) f(2) show ?thesis unfolding defs by (rule conjI)
    next
      case tt
      note gx = core_x_tt[OF C[unfolded defs]]
      note gy = core_y_tt[OF C[unfolded defs]]
      note f = assoc_finish[OF pr r3t[unfolded defs] tt(1)[unfolded defs]
          r4t[unfolded defs] tt(2)[unfolded defs] gx gy]
      from f(1) f(2) show ?thesis unfolding defs by (rule conjI)
    qed
  qed
  have x: "q dvd (l3^2 - X4 - x3) - (l4^2 - x1 - X5)" using fin by simp
  have "q dvd (l3 * (X4 - (l3^2 - X4 - x3)) - S) - (l4 * (x1 - (l4^2 - x1 - X5)) - y1)"
    using fin by (intro k12[OF _ cY1 cS]) simp
  with x show ?thesis
    unfolding t1 t2 by (simp add: cong_pt_def third_raw_def)
qed

lemma cong_pt_refl: "cong_pt q p p"
  by (simp add: cong_pt_def)

lemma cong_pt_sym: "cong_pt q p p' \<Longrightarrow> cong_pt q p' p"
  by (simp add: cong_pt_def dvd_diff_commute)

lemma cong_pt_trans [trans]: "cong_pt q p p' \<Longrightarrow> cong_pt q p' p'' \<Longrightarrow> cong_pt q p p''"
proof -
  assume a: "cong_pt q p p'" "cong_pt q p' p''"
  have "fst p - fst p'' = (fst p - fst p') + (fst p' - fst p'')"
       "snd p - snd p'' = (snd p - snd p') + (snd p' - snd p'')" by simp_all
  with a show ?thesis by (simp only: cong_pt_def dvd_add)
qed

lemma slope_cong_pts:
  assumes "cong_pt q p1 p1'" and "cong_pt q p2 p2'" and "q dvd l - l'" and "slope q a p1 p2 l"
  shows "slope q a p1' p2' l'"
proof -
  have a: "q dvd a - a" by simp
  from assms show ?thesis
    unfolding slope_def cong_pt_def
    using cong_1[of q "fst p1" "fst p1'" "snd p1" "snd p1'" "fst p2" "fst p2'" "snd p2" "snd p2'" l l']
      cong_2[of q "fst p1" "fst p1'" "snd p1" "snd p1'" "fst p2" "fst p2'" "snd p2" "snd p2'" l l' a a, OF _ _ _ _ _ a]
    by blast
qed

lemma third_cong_pts:
  assumes "cong_pt q p1 p1'" and "cong_pt q p2 p2'" and "q dvd l - l'"
  shows "cong_pt q (third_raw p1 p2 l) (third_raw p1' p2' l')"
  using assms third_cong_alg[of q "fst p1" "fst p1'" "snd p1" "snd p1'" "fst p2" "fst p2'" l l']
  by (simp add: cong_pt_def third_raw_def)

lemma curve_eq_cong:
  assumes "cong_pt q p p'" and "curve_eq q a b p"
  shows "curve_eq q a b p'"
  using assms curve_cong_alg[of q "fst p" "fst p'" "snd p" "snd p'" a b]
  by (simp add: cong_pt_def curve_eq_def)

lemma third_curve_eq:
  assumes "curve_eq q a b p1" and "slope q a p1 p2 l"
  shows "curve_eq q a b (third_raw p1 p2 l)"
  using assms closure_alg[of q "snd p1" "fst p1" a b l "fst p2" "snd p2"]
  by (simp add: curve_eq_def slope_def third_raw_def)

lemma slope_unique_alg:
  fixes q :: int
  assumes "q dvd l * d - n" and "q dvd l' * d - n"
  shows "q dvd d * (l - l')"
  using assms by algebra

lemma slope_unique:
  assumes pr: "is_prime q" and s: "slope q a p1 p2 l" and s': "slope q a p1 p2 l'"
    and n: "\<not> q dvd fst p2 - fst p1 \<or> \<not> q dvd snd p1 + snd p2"
  shows "q dvd l - l'"
proof -
  from s s' have 1: "q dvd (fst p2 - fst p1) * (l - l')" and 2: "q dvd (snd p1 + snd p2) * (l - l')"
    unfolding slope_def by (auto intro: slope_unique_alg)
  from n show ?thesis
  proof
    assume "\<not> q dvd fst p2 - fst p1"
    from prime_cancel[OF pr this 1] show ?thesis .
  next
    assume "\<not> q dvd snd p1 + snd p2"
    from prime_cancel[OF pr this 2] show ?thesis .
  qed
qed

lemma line3_alg:
  fixes q :: int
  assumes "q dvd y1\<^sup>2 - (x1 ^ 3 + a * x1 + b)"
    and "q dvd l * (x2 - x1) - (y2 - y1)"
    and "q dvd l * (y1 + y2) - (x1\<^sup>2 + x1 * x2 + x2\<^sup>2 + a)"
  shows "q dvd l * ((l\<^sup>2 - x1 - x2) - x2) - (- (l * (x1 - (l\<^sup>2 - x1 - x2)) - y1) - y2)"
    and "q dvd l * (y2 + - (l * (x1 - (l\<^sup>2 - x1 - x2)) - y1))
           - (x2\<^sup>2 + x2 * (l\<^sup>2 - x1 - x2) + (l\<^sup>2 - x1 - x2)\<^sup>2 + a)"
    and "q dvd (l\<^sup>2 - x2 - (l\<^sup>2 - x1 - x2)) - x1"
    and "q dvd (l * (x2 - (l\<^sup>2 - x2 - (l\<^sup>2 - x1 - x2))) - y2) - (- y1)"
proof -
  show "q dvd l * ((l\<^sup>2 - x1 - x2) - x2) - (- (l * (x1 - (l\<^sup>2 - x1 - x2)) - y1) - y2)"
    using assms by algebra
  show "q dvd l * (y2 + - (l * (x1 - (l\<^sup>2 - x1 - x2)) - y1))
           - (x2\<^sup>2 + x2 * (l\<^sup>2 - x1 - x2) + (l\<^sup>2 - x1 - x2)\<^sup>2 + a)"
    using assms by algebra
  show "q dvd (l\<^sup>2 - x2 - (l\<^sup>2 - x1 - x2)) - x1"
    by simp
  show "q dvd (l * (x2 - (l\<^sup>2 - x2 - (l\<^sup>2 - x1 - x2))) - y2) - (- y1)"
    using assms(2) by algebra
qed

lemma line3_alg':
  fixes q :: int
  assumes "q dvd y1\<^sup>2 - (x1 ^ 3 + a * x1 + b)"
    and "q dvd l * (x2 - x1) - (y2 - y1)"
    and "q dvd l * (y1 + y2) - (x1\<^sup>2 + x1 * x2 + x2\<^sup>2 + a)"
  shows "q dvd (- l) * (x2 - (l\<^sup>2 - x1 - x2)) - (- y2 - (l * (x1 - (l\<^sup>2 - x1 - x2)) - y1))"
    and "q dvd (- l) * ((l * (x1 - (l\<^sup>2 - x1 - x2)) - y1) + - y2)
           - ((l\<^sup>2 - x1 - x2)\<^sup>2 + (l\<^sup>2 - x1 - x2) * x2 + x2\<^sup>2 + a)"
    and "q dvd ((- l)\<^sup>2 - (l\<^sup>2 - x1 - x2) - x2) - x1"
    and "q dvd ((- l) * ((l\<^sup>2 - x1 - x2) - ((- l)\<^sup>2 - (l\<^sup>2 - x1 - x2) - x2))
                 - (l * (x1 - (l\<^sup>2 - x1 - x2)) - y1)) - y1"
proof -
  show "q dvd (- l) * (x2 - (l\<^sup>2 - x1 - x2)) - (- y2 - (l * (x1 - (l\<^sup>2 - x1 - x2)) - y1))"
    using assms by algebra
  show "q dvd (- l) * ((l * (x1 - (l\<^sup>2 - x1 - x2)) - y1) + - y2)
           - ((l\<^sup>2 - x1 - x2)\<^sup>2 + (l\<^sup>2 - x1 - x2) * x2 + x2\<^sup>2 + a)"
    using assms by algebra
  have "((- l)\<^sup>2 - (l\<^sup>2 - x1 - x2) - x2) - x1 = 0"
    by (simp add: power2_eq_square)
  then show "q dvd ((- l)\<^sup>2 - (l\<^sup>2 - x1 - x2) - x2) - x1"
    by simp
  have "((- l) * ((l\<^sup>2 - x1 - x2) - ((- l)\<^sup>2 - (l\<^sup>2 - x1 - x2) - x2))
                 - (l * (x1 - (l\<^sup>2 - x1 - x2)) - y1)) - y1 = 0"
    by (simp add: power2_eq_square algebra_simps)
  then show "q dvd ((- l) * ((l\<^sup>2 - x1 - x2) - ((- l)\<^sup>2 - (l\<^sup>2 - x1 - x2) - x2))
                 - (l * (x1 - (l\<^sup>2 - x1 - x2)) - y1)) - y1"
    by simp
qed

lemma line3_raw:
  assumes "curve_eq q a b p1" and "slope q a p1 p2 l"
  shows "slope q a p2 (neg_raw (third_raw p1 p2 l)) l"
    and "cong_pt q (third_raw p2 (neg_raw (third_raw p1 p2 l)) l) (neg_raw p1)"
  using assms line3_alg[of q "snd p1" "fst p1" a b l "fst p2" "snd p2"]
  by (simp_all add: curve_eq_def slope_def third_raw_def neg_raw_def cong_pt_def)

lemma line3_raw':
  assumes "curve_eq q a b p1" and "slope q a p1 p2 l"
  shows "slope q a (third_raw p1 p2 l) (neg_raw p2) (- l)"
    and "cong_pt q (third_raw (third_raw p1 p2 l) (neg_raw p2) (- l)) p1"
  using assms line3_alg'[of q "snd p1" "fst p1" a b l "fst p2" "snd p2"]
  by (simp_all add: curve_eq_def slope_def third_raw_def neg_raw_def cong_pt_def)

lemma uniq_zero_alg:
  fixes q :: int
  assumes "q dvd l * (x2 - x1) - (y2 - y1)"
    and "q dvd (l\<^sup>2 - x1 - x2) - x2"
    and "q dvd (l * (x1 - (l\<^sup>2 - x1 - x2)) - y1) - y2"
  shows "q dvd 2 * y2"
  using assms by algebra

lemma uniq_zero_alg2:
  fixes q :: int
  assumes "q dvd l * (x2 - x1) - (y2 - y1)"
    and "q dvd l * (y1 + y2) - (x1\<^sup>2 + x1 * x2 + x2\<^sup>2 + a)"
    and "q dvd (l\<^sup>2 - x1 - x2) - x2"
    and "q dvd y2"
  shows "q dvd 3 * x2\<^sup>2 + a"
  using assms by algebra

lemma uniq_zero_alg3:
  fixes q :: int
  assumes "q dvd y2\<^sup>2 - (x2 ^ 3 + a * x2 + b)" and "q dvd y2"
  shows "q dvd x2 ^ 3 + a * x2 + b"
  using assms by algebra

lemma uniq_zero_raw:
  assumes pr: "is_prime q" and q2: "2 < q"
    and s: "slope q a p1 p2 l" and c: "cong_pt q (third_raw p1 p2 l) p2"
    and e: "curve_eq q a b p2"
  shows "q dvd 4 * a ^ 3 + 27 * b\<^sup>2"
proof -
  let ?x1 = "fst p1" and ?y1 = "snd p1" and ?x2 = "fst p2" and ?y2 = "snd p2"
  from s have i: "q dvd l * (?x2 - ?x1) - (?y2 - ?y1)"
    and ii: "q dvd l * (?y1 + ?y2) - (?x1\<^sup>2 + ?x1 * ?x2 + ?x2\<^sup>2 + a)"
    by (simp_all add: slope_def)
  from c have cx: "q dvd (l\<^sup>2 - ?x1 - ?x2) - ?x2"
    and cy: "q dvd (l * (?x1 - (l\<^sup>2 - ?x1 - ?x2)) - ?y1) - ?y2"
    by (simp_all add: cong_pt_def third_raw_def)
  have "\<not> q dvd 2" using q2 by (auto dest: zdvd_imp_le)
  from prime_cancel[OF pr this uniq_zero_alg[OF i cx cy]] have y: "q dvd ?y2" .
  from e have e': "q dvd ?y2\<^sup>2 - (?x2 ^ 3 + a * ?x2 + b)" by (simp add: curve_eq_def)
  from disc_alg[OF uniq_zero_alg2[OF i ii cx y] uniq_zero_alg3[OF e' y]] show ?thesis .
qed

section \<open>Group law: the curve's operations\<close>

lemma good_curveI:
  assumes "EC_init a b q = Inr ec" and "is_prime q" and "is_valid_eg a b q = Inr True"
  shows "good_curve ec"
proof -
  from EC_init_D[OF assms(1)] have e: "ec_a ec = a" "ec_b ec = b" "ec_q ec = q"
    and r: "0 < b" "b < q" "2 < q" by simp_all
  have "\<not> q dvd b" using r by (auto dest: zdvd_imp_le)
  moreover have "\<not> q dvd 4 * a ^ 3 + 27 * b\<^sup>2"
    using assms(3) by (simp add: is_valid_eg_def mod_eq_0_iff_dvd split: if_splits)
  ultimately show ?thesis using assms(2) r by (simp add: good_curve_def e)
qed

lemma good_prime: "good_curve ec \<Longrightarrow> is_prime (ec_q ec)"
  and good_pos: "good_curve ec \<Longrightarrow> 0 < ec_q ec"
  and good_gt2: "good_curve ec \<Longrightarrow> 2 < ec_q ec"
  by (simp_all add: good_curve_def)

lemma good_not_dvd2: "good_curve ec \<Longrightarrow> \<not> ec_q ec dvd 2"
  by (auto simp: good_curve_def dest: zdvd_imp_le)

lemma not_dvd_range: "0 < y \<Longrightarrow> y < q \<Longrightarrow> \<not> q dvd (y::int)"
  by (auto dest: zdvd_imp_le)

lemma zero_is_point: "good_curve ec \<Longrightarrow> is_point ec EC_zero"
  by (simp add: is_point_def EC_zero_def good_curve_def)

lemma on_curve_nonzero:
  assumes "good_curve ec" and "on_curve ec p"
  shows "p \<noteq> EC_zero"
proof
  assume "p = EC_zero"
  with assms(2) have "ec_q ec dvd - ec_b ec"
    by (simp add: on_curve_def curve_eq_def EC_zero_def)
  then have "ec_q ec dvd ec_b ec" by simp
  with assms(1) show False by (simp add: good_curve_def)
qed

lemma valid_pt_iff:
  assumes "good_curve ec"
  shows "valid_pt ec p \<longleftrightarrow> p = EC_zero \<or> on_curve ec p"
proof (cases "p = EC_zero")
  case True
  then show ?thesis using zero_is_point[OF assms] by (simp add: valid_pt_def EC_is_valid_def)
next
  case False
  then show ?thesis
    by (simp add: valid_pt_def EC_is_valid_def on_curve_def curve_eq_def mod_eq_dvd_iff)
qed

lemma pt_eqI:
  assumes "is_point ec p" and "is_point ec p'" and "cong_pt (ec_q ec) p p'"
  shows "p = p'"
proof (rule prod_eqI)
  show "fst p = fst p'"
    using assms by (intro residue_unique[of _ "ec_q ec"]) (simp_all add: is_point_def cong_pt_def)
  show "snd p = snd p'"
    using assms by (intro residue_unique[of _ "ec_q ec"]) (simp_all add: is_point_def cong_pt_def)
qed

lemma third_mod_alg:
  fixes q :: int
  assumes "q dvd x - (l\<^sup>2 - x1 - x2)" and "q dvd y - (l * (x1 - x) - y1)"
  shows "q dvd y - (l * (x1 - (l\<^sup>2 - x1 - x2)) - y1)"
  using assms by algebra

lemma third_mod_cong:
  "cong_pt q ((l * l - x1 - x2) mod q, (l * (x1 - (l * l - x1 - x2) mod q) - y1) mod q)
             (third_raw (x1, y1) (x2, y2) l)"
proof -
  let ?x = "(l * l - x1 - x2) mod q"
  let ?y = "(l * (x1 - ?x) - y1) mod q"
  have x: "q dvd ?x - (l\<^sup>2 - x1 - x2)"
    unfolding power2_eq_square by (rule mod_cong_dvd)
  have "q dvd ?y - (l * (x1 - ?x) - y1)" by (rule mod_cong_dvd)
  with x have "q dvd ?y - (l * (x1 - (l\<^sup>2 - x1 - x2)) - y1)" by (rule third_mod_alg)
  with x show ?thesis by (simp add: cong_pt_def third_raw_def)
qed

lemma third_mod_point:
  "0 < ec_q ec \<Longrightarrow> is_point ec (u mod ec_q ec, v mod ec_q ec)"
  by (simp add: is_point_def)

lemma add_chord:
  assumes g: "good_curve ec" and "p1 \<noteq> EC_zero" "p2 \<noteq> EC_zero" "fst p1 \<noteq> fst p2"
    and "is_point ec p1" "is_point ec p2"
  shows "\<exists>l. ec_q ec dvd l * (fst p2 - fst p1) - (snd p2 - snd p1)
           \<and> cong_pt (ec_q ec) (EC_add ec p1 p2) (third_raw p1 p2 l)
           \<and> is_point ec (EC_add ec p1 p2)"
proof -
  let ?q = "ec_q ec"
  let ?l = "(snd p2 - snd p1) * inv_val (fst p2 - fst p1) ?q mod ?q"
  let ?x = "(?l * ?l - fst p1 - fst p2) mod ?q"
  have a: "EC_add ec p1 p2 = (?x, (?l * (fst p1 - ?x) - snd p1) mod ?q)"
    by (simp only: EC_add_chord[OF assms(2-4)] Let_def)
  have nd: "\<not> ?q dvd fst p2 - fst p1"
    using assms(4-6) diff_not_dvd[of "fst p2" ?q "fst p1"] by (auto simp: is_point_def)
  have 1: "?q dvd ?l * (fst p2 - fst p1) - (snd p2 - snd p1)"
    by (rule slope_cong[OF good_prime[OF g] nd])
  have 2: "cong_pt ?q (EC_add ec p1 p2) (third_raw p1 p2 ?l)"
    unfolding a using third_mod_cong[of ?q ?l "fst p1" "fst p2" "snd p1" "snd p2"] by simp
  have 3: "is_point ec (EC_add ec p1 p2)"
    unfolding a by (rule third_mod_point[OF good_pos[OF g]])
  from 1 2 3 show ?thesis by blast
qed

lemma add_tangent:
  assumes g: "good_curve ec" and "p \<noteq> EC_zero" "snd p \<noteq> 0" and "is_point ec p"
  shows "\<exists>l. ec_q ec dvd l * (2 * snd p) - (3 * fst p * fst p + ec_a ec)
           \<and> cong_pt (ec_q ec) (EC_add ec p p) (third_raw p p l)
           \<and> is_point ec (EC_add ec p p)"
proof -
  let ?q = "ec_q ec"
  let ?l = "(3 * fst p * fst p + ec_a ec) * inv_val (2 * snd p) ?q mod ?q"
  let ?x = "(?l * ?l - fst p - fst p) mod ?q"
  have a: "EC_add ec p p = (?x, (?l * (fst p - ?x) - snd p) mod ?q)"
    by (simp only: EC_add_tangent[OF assms(2,3)] Let_def)
  have y: "0 < snd p" "snd p < ?q" using assms(3,4) by (auto simp: is_point_def)
  have nd: "\<not> ?q dvd 2 * snd p"
    using is_prime_dvd_mult[OF good_prime[OF g], of 2 "snd p"] good_not_dvd2[OF g]
      not_dvd_range[OF y] by blast
  have 1: "?q dvd ?l * (2 * snd p) - (3 * fst p * fst p + ec_a ec)"
    by (rule slope_cong[OF good_prime[OF g] nd])
  have 2: "cong_pt ?q (EC_add ec p p) (third_raw p p ?l)"
    unfolding a using third_mod_cong[of ?q ?l "fst p" "fst p" "snd p" "snd p"] by simp
  have 3: "is_point ec (EC_add ec p p)"
    unfolding a by (rule third_mod_point[OF good_pos[OF g]])
  from 1 2 3 show ?thesis by blast
qed

lemma chord_rel_alg:
  fixes q :: int
  assumes "q dvd y1\<^sup>2 - (x1 ^ 3 + a * x1 + b)" and "q dvd y2\<^sup>2 - (x2 ^ 3 + a * x2 + b)"
    and "q dvd l * (x2 - x1) - (y2 - y1)"
  shows "q dvd (x2 - x1) * (l * (y1 + y2) - (x1\<^sup>2 + x1 * x2 + x2\<^sup>2 + a))"
  using assms by algebra

lemma tangent_rel_alg:
  fixes q :: int
  assumes "q dvd l * (2 * y) - (3 * x * x + a)"
  shows "q dvd l * (x - x) - (y - y)" and "q dvd l * (y + y) - (x\<^sup>2 + x * x + x\<^sup>2 + a)"
proof -
  show "q dvd l * (x - x) - (y - y)" by simp
  show "q dvd l * (y + y) - (x\<^sup>2 + x * x + x\<^sup>2 + a)"
    using assms by algebra
qed

lemma add_is_point:
  assumes g: "good_curve ec" and p1: "is_point ec p1" and p2: "is_point ec p2"
  shows "is_point ec (EC_add ec p1 p2)"
proof -
  consider "p1 = EC_zero" | "p2 = EC_zero"
    | "p1 \<noteq> EC_zero" "p2 \<noteq> EC_zero" "fst p1 = fst p2" "snd p1 \<noteq> snd p2 \<or> snd p1 = 0"
    | "p1 \<noteq> EC_zero" "p1 = p2" "snd p1 \<noteq> 0"
    | "p1 \<noteq> EC_zero" "p2 \<noteq> EC_zero" "fst p1 \<noteq> fst p2"
    by (metis prod_eqI)
  then show ?thesis
  proof cases
    case 1 then show ?thesis using p2 by (simp add: EC_add_zero_left)
  next
    case 2 then show ?thesis using p1 by (simp add: EC_add_zero_right)
  next
    case 3 then show ?thesis using zero_is_point[OF g] by (simp add: EC_add_opposite)
  next
    case 4 then show ?thesis using add_tangent[OF g 4(1,3) p1] by blast
  next
    case 5 then show ?thesis using add_chord[OF g 5 p1 p2] by blast
  qed
qed

lemma nonopp_inv:
  assumes g: "good_curve ec" and p1: "is_point ec p1" and p2: "is_point ec p2"
    and n: "\<not> opposite p1 p2"
  shows "\<not> ec_q ec dvd fst p2 - fst p1 \<or> \<not> ec_q ec dvd snd p1 + snd p2"
proof (cases "fst p1 = fst p2")
  case False
  then show ?thesis
    using p1 p2 diff_not_dvd[of "fst p2" "ec_q ec" "fst p1"] by (auto simp: is_point_def)
next
  case True
  with n have e: "snd p1 = snd p2" "snd p1 \<noteq> 0" by (auto simp: opposite_def)
  then have y: "0 < snd p1" "snd p1 < ec_q ec" using p1 by (auto simp: is_point_def)
  have "\<not> ec_q ec dvd 2 * snd p1"
    using is_prime_dvd_mult[OF good_prime[OF g], of 2 "snd p1"] good_not_dvd2[OF g]
      not_dvd_range[OF y] by blast
  then show ?thesis using e by simp
qed

lemma add_slope_ex:
  assumes g: "good_curve ec" and p1: "on_curve ec p1" and p2: "on_curve ec p2"
    and n: "\<not> opposite p1 p2"
  shows "\<exists>l. slope (ec_q ec) (ec_a ec) p1 p2 l
           \<and> cong_pt (ec_q ec) (EC_add ec p1 p2) (third_raw p1 p2 l)"
proof -
  let ?q = "ec_q ec" and ?a = "ec_a ec" and ?b = "ec_b ec"
  note z = on_curve_nonzero[OF g p1] on_curve_nonzero[OF g p2]
  from p1 p2 have pt: "is_point ec p1" "is_point ec p2"
    and e1: "?q dvd (snd p1)\<^sup>2 - ((fst p1) ^ 3 + ?a * fst p1 + ?b)"
    and e2: "?q dvd (snd p2)\<^sup>2 - ((fst p2) ^ 3 + ?a * fst p2 + ?b)"
    by (simp_all add: on_curve_def curve_eq_def)
  show ?thesis
  proof (cases "fst p1 = fst p2")
    case False
    from add_chord[OF g z False pt] obtain l
      where l: "?q dvd l * (fst p2 - fst p1) - (snd p2 - snd p1)"
        and c: "cong_pt ?q (EC_add ec p1 p2) (third_raw p1 p2 l)" by blast
    have nd: "\<not> ?q dvd fst p2 - fst p1"
      using False pt diff_not_dvd[of "fst p2" ?q "fst p1"] by (auto simp: is_point_def)
    from prime_cancel[OF good_prime[OF g] nd chord_rel_alg[OF e1 e2 l]] l
    have "slope ?q ?a p1 p2 l" by (simp add: slope_def)
    with c show ?thesis by blast
  next
    case True
    with n have e: "snd p1 = snd p2" "snd p1 \<noteq> 0" by (auto simp: opposite_def)
    with True have eq: "p2 = p1" by (simp add: prod_eq_iff)
    from add_tangent[OF g z(1) e(2) pt(1)] obtain l
      where l: "?q dvd l * (2 * snd p1) - (3 * fst p1 * fst p1 + ?a)"
        and c: "cong_pt ?q (EC_add ec p1 p1) (third_raw p1 p1 l)" by blast
    from tangent_rel_alg[OF l] have "slope ?q ?a p1 p1 l" by (simp add: slope_def)
    with c eq show ?thesis by blast
  qed
qed

lemma add_by_slope:
  assumes g: "good_curve ec" and p1: "on_curve ec p1" and p2: "on_curve ec p2"
    and n: "\<not> opposite p1 p2" and s: "slope (ec_q ec) (ec_a ec) p1 p2 l"
  shows "cong_pt (ec_q ec) (EC_add ec p1 p2) (third_raw p1 p2 l)"
proof -
  from add_slope_ex[OF g p1 p2 n] obtain l0
    where s0: "slope (ec_q ec) (ec_a ec) p1 p2 l0"
      and c: "cong_pt (ec_q ec) (EC_add ec p1 p2) (third_raw p1 p2 l0)" by blast
  from p1 p2 have pt: "is_point ec p1" "is_point ec p2" by (simp_all add: on_curve_def)
  from slope_unique[OF good_prime[OF g] s0 s nonopp_inv[OF g pt n]]
  have "cong_pt (ec_q ec) (third_raw p1 p2 l0) (third_raw p1 p2 l)"
    by (intro third_cong_pts cong_pt_refl)
  with c show ?thesis by (rule cong_pt_trans)
qed

lemma add_on_curve:
  assumes g: "good_curve ec" and p1: "on_curve ec p1" and p2: "on_curve ec p2"
    and n: "\<not> opposite p1 p2"
  shows "on_curve ec (EC_add ec p1 p2)"
proof -
  from add_slope_ex[OF g p1 p2 n] obtain l
    where s: "slope (ec_q ec) (ec_a ec) p1 p2 l"
      and c: "cong_pt (ec_q ec) (EC_add ec p1 p2) (third_raw p1 p2 l)" by blast
  from p1 p2 have pt: "is_point ec p1" "is_point ec p2"
    and e1: "curve_eq (ec_q ec) (ec_a ec) (ec_b ec) p1" by (simp_all add: on_curve_def)
  from third_curve_eq[OF e1 s] cong_pt_sym[OF c]
  have "curve_eq (ec_q ec) (ec_a ec) (ec_b ec) (EC_add ec p1 p2)"
    by (rule curve_eq_cong[rotated])
  with add_is_point[OF g pt] show ?thesis by (simp add: on_curve_def)
qed


lemma on_curve_point: "on_curve ec p \<Longrightarrow> is_point ec p"
  and on_curve_eq: "on_curve ec p \<Longrightarrow> curve_eq (ec_q ec) (ec_a ec) (ec_b ec) p"
  by (simp_all add: on_curve_def)

lemma neg_cong: "cong_pt (ec_q ec) (EC_neg ec p) (neg_raw p)"
  using mod_cong_dvd[of "ec_q ec" "- snd p"] by (simp add: cong_pt_def EC_neg_def neg_raw_def)

lemma neg_raw_cong: "cong_pt q p p' \<Longrightarrow> cong_pt q (neg_raw p) (neg_raw p')"
proof -
  assume a: "cong_pt q p p'"
  have "- snd p - - snd p' = - (snd p - snd p')" by simp
  with a show ?thesis by (simp only: cong_pt_def neg_raw_def fst_conv snd_conv dvd_minus_iff)
qed

lemma neg_raw_neg_raw: "neg_raw (neg_raw p) = p"
  by (simp add: neg_raw_def)

lemma neg_raw_curve_eq: "curve_eq q a b p \<Longrightarrow> curve_eq q a b (neg_raw p)"
  by (simp add: curve_eq_def neg_raw_def)

lemma neg_is_point: "good_curve ec \<Longrightarrow> is_point ec p \<Longrightarrow> is_point ec (EC_neg ec p)"
  by (simp add: is_point_def EC_neg_def good_curve_def)

lemma neg_on_curve:
  assumes g: "good_curve ec" and p: "on_curve ec p"
  shows "on_curve ec (EC_neg ec p)"
proof -
  from neg_raw_curve_eq[OF on_curve_eq[OF p]] cong_pt_sym[OF neg_cong]
  have "curve_eq (ec_q ec) (ec_a ec) (ec_b ec) (EC_neg ec p)"
    by (rule curve_eq_cong[rotated])
  with neg_is_point[OF g on_curve_point[OF p]] show ?thesis by (simp add: on_curve_def)
qed

lemma neg_neg:
  assumes g: "good_curve ec" and p: "is_point ec p"
  shows "EC_neg ec (EC_neg ec p) = p"
proof (rule pt_eqI)
  show "is_point ec (EC_neg ec (EC_neg ec p))" by (intro neg_is_point g p)
  show "is_point ec p" by (rule p)
  have "cong_pt (ec_q ec) (EC_neg ec (EC_neg ec p)) (neg_raw (EC_neg ec p))" by (rule neg_cong)
  also have "cong_pt (ec_q ec) (neg_raw (EC_neg ec p)) (neg_raw (neg_raw p))"
    by (intro neg_raw_cong neg_cong)
  finally show "cong_pt (ec_q ec) (EC_neg ec (EC_neg ec p)) p"
    by (simp only: neg_raw_neg_raw)
qed

lemma neg_zero: "EC_neg ec EC_zero = EC_zero"
  by (simp add: EC_neg_def EC_zero_def)

lemma neg_fixed: "snd p = 0 \<Longrightarrow> EC_neg ec p = p"
  by (simp add: EC_neg_def prod_eq_iff)

lemma opposite_sym: "opposite p1 p2 \<Longrightarrow> opposite p2 p1"
  by (auto simp: opposite_def)

lemma opposite_neg:
  assumes g: "good_curve ec" and p: "is_point ec p"
  shows "opposite p (EC_neg ec p)"
proof (cases "snd p = 0")
  case True
  then show ?thesis by (simp add: opposite_def EC_neg_def)
next
  case False
  then have y: "0 < snd p" "snd p < ec_q ec" using p by (auto simp: is_point_def)
  have nd: "\<not> ec_q ec dvd 2 * snd p"
    using is_prime_dvd_mult[OF good_prime[OF g], of 2 "snd p"] good_not_dvd2[OF g]
      not_dvd_range[OF y] by blast
  have "snd p \<noteq> (- snd p) mod ec_q ec"
  proof
    assume "snd p = (- snd p) mod ec_q ec"
    then have "ec_q ec dvd snd p - (- snd p)"
      using mod_cong_dvd[of "ec_q ec" "- snd p"] by simp
    then show False using nd by simp
  qed
  then show ?thesis by (simp add: opposite_def EC_neg_def)
qed

lemma same_x_alg:
  fixes q :: int
  assumes "q dvd y1\<^sup>2 - (x ^ 3 + a * x + b)" and "q dvd y2\<^sup>2 - (x ^ 3 + a * x + b)"
  shows "q dvd (y2 - y1) * (y2 + y1)"
  using assms by algebra

lemma same_x:
  assumes g: "good_curve ec" and p1: "on_curve ec p1" and p2: "on_curve ec p2"
    and x: "fst p1 = fst p2"
  shows "p2 = p1 \<or> p2 = EC_neg ec p1"
proof -
  let ?q = "ec_q ec"
  from p1 p2 x have "?q dvd (snd p2 - snd p1) * (snd p2 + snd p1)"
    by (auto simp: on_curve_def curve_eq_def intro: same_x_alg)
  from is_prime_dvd_mult[OF good_prime[OF g] this] show ?thesis
  proof
    assume "?q dvd snd p2 - snd p1"
    then have "cong_pt ?q p2 p1" using x by (simp add: cong_pt_def)
    from pt_eqI[OF on_curve_point[OF p2] on_curve_point[OF p1] this] show ?thesis ..
  next
    assume "?q dvd snd p2 + snd p1"
    then have "cong_pt ?q p2 (neg_raw p1)" using x by (simp add: cong_pt_def neg_raw_def)
    from this cong_pt_sym[OF neg_cong] have "cong_pt ?q p2 (EC_neg ec p1)" by (rule cong_pt_trans)
    from pt_eqI[OF on_curve_point[OF p2] neg_is_point[OF g on_curve_point[OF p1]] this]
    show ?thesis ..
  qed
qed

lemma opposite_is_neg:
  assumes g: "good_curve ec" and p1: "on_curve ec p1" and p2: "on_curve ec p2"
    and o: "opposite p1 p2"
  shows "p2 = EC_neg ec p1"
proof -
  from o have x: "fst p1 = fst p2" by (simp add: opposite_def)
  from same_x[OF g p1 p2 x] show ?thesis
  proof
    assume "p2 = p1"
    with o have "snd p1 = 0" by (simp add: opposite_def)
    with \<open>p2 = p1\<close> show ?thesis by (simp add: neg_fixed)
  qed
qed

lemma add_opposite:
  assumes g: "good_curve ec" and p1: "on_curve ec p1" and p2: "on_curve ec p2"
    and o: "opposite p1 p2"
  shows "EC_add ec p1 p2 = EC_zero"
  using on_curve_nonzero[OF g p1] on_curve_nonzero[OF g p2] o
  by (simp add: EC_add_opposite opposite_def)

lemma add_neg:
  assumes g: "good_curve ec" and p: "on_curve ec p"
  shows "EC_add ec p (EC_neg ec p) = EC_zero"
  by (rule add_opposite[OF g p neg_on_curve[OF g p] opposite_neg[OF g on_curve_point[OF p]]])

lemma add_zero_opposite:
  assumes g: "good_curve ec" and p1: "on_curve ec p1" and p2: "on_curve ec p2"
    and z: "EC_add ec p1 p2 = EC_zero"
  shows "opposite p1 p2"
proof (rule ccontr)
  assume "\<not> opposite p1 p2"
  from on_curve_nonzero[OF g add_on_curve[OF g p1 p2 this]] z show False by simp
qed

lemma uniq_zero:
  assumes g: "good_curve ec" and p1: "on_curve ec p1" and p2: "on_curve ec p2"
    and e: "EC_add ec p1 p2 = p2"
  shows False
proof -
  have n: "\<not> opposite p1 p2"
  proof
    assume "opposite p1 p2"
    from add_opposite[OF g p1 p2 this] e on_curve_nonzero[OF g p2] show False by simp
  qed
  from add_slope_ex[OF g p1 p2 n] obtain l
    where s: "slope (ec_q ec) (ec_a ec) p1 p2 l"
      and c: "cong_pt (ec_q ec) (EC_add ec p1 p2) (third_raw p1 p2 l)" by blast
  from c e have "cong_pt (ec_q ec) (third_raw p1 p2 l) p2" by (simp add: cong_pt_sym)
  from uniq_zero_raw[OF good_prime[OF g] good_gt2[OF g] s this on_curve_eq[OF p2]] g
  show False by (simp add: good_curve_def)
qed

lemma add_commute_pt:
  assumes g: "good_curve ec" and "is_point ec p1" and "is_point ec p2"
  shows "EC_add ec p1 p2 = EC_add ec p2 p1"
  by (rule add_commute_points[OF good_prime[OF g] assms(2,3)])

lemma add_minus_id_aff:
  assumes g: "good_curve ec" and p1: "on_curve ec p1" and p2: "on_curve ec p2"
    and n: "\<not> opposite p1 p2"
  shows "EC_add ec (EC_add ec p1 p2) (EC_neg ec p2) = p1"
proof -
  let ?q = "ec_q ec" and ?a = "ec_a ec"
  let ?s = "EC_add ec p1 p2"
  have s: "on_curve ec ?s" by (rule add_on_curve[OF g p1 p2 n])
  have np: "on_curve ec (EC_neg ec p2)" by (rule neg_on_curve[OF g p2])
  from add_slope_ex[OF g p1 p2 n] obtain l
    where l: "slope ?q ?a p1 p2 l" and c: "cong_pt ?q ?s (third_raw p1 p2 l)" by blast
  note r = line3_raw'[OF on_curve_eq[OF p1] l]
  have c2: "cong_pt ?q (neg_raw p2) (EC_neg ec p2)" by (rule cong_pt_sym[OF neg_cong])
  have sl: "slope ?q ?a ?s (EC_neg ec p2) (- l)"
    by (rule slope_cong_pts[OF cong_pt_sym[OF c] c2 _ r(1)]) simp
  have no: "\<not> opposite ?s (EC_neg ec p2)"
  proof
    assume o: "opposite ?s (EC_neg ec p2)"
    then have "fst p2 = fst ?s" by (simp add: opposite_def EC_neg_def)
    from same_x[OF g p2 s this] have "?s = p2"
    proof
      assume e: "?s = EC_neg ec p2"
      with o have "snd (EC_neg ec p2) = 0" by (simp add: opposite_def)
      then have "EC_neg ec (EC_neg ec p2) = EC_neg ec p2" by (rule neg_fixed)
      with neg_neg[OF g on_curve_point[OF p2]] e show "?s = p2" by simp
    qed
    with uniq_zero[OF g p1 p2] show False by simp
  qed
  have "cong_pt ?q (EC_add ec ?s (EC_neg ec p2)) (third_raw ?s (EC_neg ec p2) (- l))"
    by (rule add_by_slope[OF g s np no sl])
  also have "cong_pt ?q (third_raw ?s (EC_neg ec p2) (- l))
               (third_raw (third_raw p1 p2 l) (neg_raw p2) (- l))"
    by (rule third_cong_pts[OF c neg_cong]) simp
  also note r(2)
  finally have "cong_pt ?q (EC_add ec ?s (EC_neg ec p2)) p1" .
  from pt_eqI[OF add_is_point[OF g on_curve_point[OF s] on_curve_point[OF np]]
      on_curve_point[OF p1] this]
  show ?thesis .
qed

lemma rotate:
  assumes g: "good_curve ec" and p1: "on_curve ec p1" and p2: "on_curve ec p2"
    and n: "\<not> opposite p1 p2"
  shows "EC_add ec p2 (EC_neg ec (EC_add ec p1 p2)) = EC_neg ec p1"
proof -
  let ?q = "ec_q ec" and ?a = "ec_a ec"
  let ?s = "EC_add ec p1 p2"
  have s: "on_curve ec ?s" by (rule add_on_curve[OF g p1 p2 n])
  have ns: "on_curve ec (EC_neg ec ?s)" by (rule neg_on_curve[OF g s])
  from add_slope_ex[OF g p1 p2 n] obtain l
    where l: "slope ?q ?a p1 p2 l" and c: "cong_pt ?q ?s (third_raw p1 p2 l)" by blast
  note r = line3_raw[OF on_curve_eq[OF p1] l]
  have c2: "cong_pt ?q (EC_neg ec ?s) (neg_raw (third_raw p1 p2 l))"
    by (rule cong_pt_trans[OF neg_cong neg_raw_cong[OF c]])
  have sl: "slope ?q ?a p2 (EC_neg ec ?s) l"
    by (rule slope_cong_pts[OF cong_pt_refl cong_pt_sym[OF c2] _ r(1)]) simp
  have no: "\<not> opposite p2 (EC_neg ec ?s)"
  proof
    assume o: "opposite p2 (EC_neg ec ?s)"
    then have "fst p2 = fst ?s" by (simp add: opposite_def EC_neg_def)
    from same_x[OF g p2 s this] have "?s = p2"
    proof
      assume e: "?s = EC_neg ec p2"
      then have "EC_neg ec ?s = p2" using neg_neg[OF g on_curve_point[OF p2]] by simp
      with o have "snd p2 = 0" by (simp add: opposite_def)
      with e show "?s = p2" by (simp add: neg_fixed)
    qed
    with uniq_zero[OF g p1 p2] show False by simp
  qed
  have "cong_pt ?q (EC_add ec p2 (EC_neg ec ?s)) (third_raw p2 (EC_neg ec ?s) l)"
    by (rule add_by_slope[OF g p2 ns no sl])
  also have "cong_pt ?q (third_raw p2 (EC_neg ec ?s) l)
               (third_raw p2 (neg_raw (third_raw p1 p2 l)) l)"
    by (rule third_cong_pts[OF cong_pt_refl c2]) simp
  also note r(2)
  also have "cong_pt ?q (neg_raw p1) (EC_neg ec p1)" by (rule cong_pt_sym[OF neg_cong])
  finally have "cong_pt ?q (EC_add ec p2 (EC_neg ec ?s)) (EC_neg ec p1)" .
  from pt_eqI[OF add_is_point[OF g on_curve_point[OF p2] on_curve_point[OF ns]]
      neg_is_point[OF g on_curve_point[OF p1]] this]
  show ?thesis .
qed

lemma dvd_cong_diff:
  fixes q :: int
  assumes "q dvd s - s'" and "q dvd x - s'"
  shows "q dvd x - s"
  using assms by algebra

lemma dvd_cong_sum:
  fixes q :: int
  assumes "q dvd s - s'" and "q dvd s' + y"
  shows "q dvd s + y"
  using assms by algebra

lemma dvd_cong_diff2:
  fixes q :: int
  assumes "q dvd s - s'" and "q dvd s' - x"
  shows "q dvd s - x"
  using assms by algebra

lemma dvd_cong_sum2:
  fixes q :: int
  assumes "q dvd s - s'" and "q dvd y + s'"
  shows "q dvd y + s"
  using assms by algebra

lemma assoc_generic:
  assumes g: "good_curve ec" and p1: "on_curve ec p1" and p2: "on_curve ec p2"
    and p3: "on_curve ec p3"
    and n1: "\<not> opposite p1 p2" and n2: "\<not> opposite p2 p3"
    and n3: "\<not> opposite (EC_add ec p1 p2) p3" and n4: "\<not> opposite p1 (EC_add ec p2 p3)"
  shows "EC_add ec (EC_add ec p1 p2) p3 = EC_add ec p1 (EC_add ec p2 p3)"
proof -
  let ?q = "ec_q ec" and ?a = "ec_a ec"
  let ?s = "EC_add ec p1 p2" and ?t = "EC_add ec p2 p3"
  have s: "on_curve ec ?s" by (rule add_on_curve[OF g p1 p2 n1])
  have t: "on_curve ec ?t" by (rule add_on_curve[OF g p2 p3 n2])
  from add_slope_ex[OF g p1 p2 n1] obtain l1
    where l1: "slope ?q ?a p1 p2 l1" and cs: "cong_pt ?q ?s (third_raw p1 p2 l1)" by blast
  from add_slope_ex[OF g p2 p3 n2] obtain l2
    where l2: "slope ?q ?a p2 p3 l2" and ct: "cong_pt ?q ?t (third_raw p2 p3 l2)" by blast
  from add_slope_ex[OF g s p3 n3] obtain l3
    where l3: "slope ?q ?a ?s p3 l3"
      and c3: "cong_pt ?q (EC_add ec ?s p3) (third_raw ?s p3 l3)" by blast
  from add_slope_ex[OF g p1 t n4] obtain l4
    where l4: "slope ?q ?a p1 ?t l4"
      and c4: "cong_pt ?q (EC_add ec p1 ?t) (third_raw p1 ?t l4)" by blast
  let ?s' = "third_raw p1 p2 l1" and ?t' = "third_raw p2 p3 l2"
  have l3': "slope ?q ?a ?s' p3 l3"
    by (rule slope_cong_pts[OF cs cong_pt_refl _ l3]) simp
  have l4': "slope ?q ?a p1 ?t' l4"
    by (rule slope_cong_pts[OF cong_pt_refl ct _ l4]) simp
  from cs ct have cx: "?q dvd fst ?s - fst ?s'" "?q dvd snd ?s - snd ?s'"
      "?q dvd fst ?t - fst ?t'" "?q dvd snd ?t - snd ?t'"
    by (simp_all add: cong_pt_def)
  have i3: "\<not> ?q dvd fst p3 - fst ?s' \<or> \<not> ?q dvd snd ?s' + snd p3"
    using nonopp_inv[OF g on_curve_point[OF s] on_curve_point[OF p3] n3]
      dvd_cong_diff[OF cx(1)] dvd_cong_sum[OF cx(2)] by blast
  have i4: "\<not> ?q dvd fst ?t' - fst p1 \<or> \<not> ?q dvd snd p1 + snd ?t'"
    using nonopp_inv[OF g on_curve_point[OF p1] on_curve_point[OF t] n4]
      dvd_cong_diff2[OF cx(3)] dvd_cong_sum2[OF cx(4)] by blast
  have raw: "cong_pt ?q (third_raw ?s' p3 l3) (third_raw p1 ?t' l4)"
    using assoc_raw[OF good_prime[OF g], of ?a "fst p1" "snd p1" "fst p2" "snd p2" l1
        "fst p3" "snd p3" l2 l3 l4] l1 l2 l3' l4' i3 i4
    by simp
  note c3
  also have "cong_pt ?q (third_raw ?s p3 l3) (third_raw ?s' p3 l3)"
    by (rule third_cong_pts[OF cs cong_pt_refl]) simp
  also note raw
  also have "cong_pt ?q (third_raw p1 ?t' l4) (third_raw p1 ?t l4)"
    by (rule third_cong_pts[OF cong_pt_refl cong_pt_sym[OF ct]]) simp
  also note cong_pt_sym[OF c4]
  finally have "cong_pt ?q (EC_add ec ?s p3) (EC_add ec p1 ?t)" .
  from pt_eqI[OF add_is_point[OF g on_curve_point[OF s] on_curve_point[OF p3]]
      add_is_point[OF g on_curve_point[OF p1] on_curve_point[OF t]] this]
  show ?thesis .
qed

lemma valid_zero: "good_curve ec \<Longrightarrow> valid_pt ec EC_zero"
  by (simp add: valid_pt_iff)

lemma valid_point: "valid_pt ec p \<Longrightarrow> is_point ec p"
  by (simp add: valid_pt_def)

lemma add_valid:
  assumes g: "good_curve ec" and p1: "valid_pt ec p1" and p2: "valid_pt ec p2"
  shows "valid_pt ec (EC_add ec p1 p2)"
proof -
  consider "p1 = EC_zero" | "p2 = EC_zero"
    | "on_curve ec p1" "on_curve ec p2" "opposite p1 p2"
    | "on_curve ec p1" "on_curve ec p2" "\<not> opposite p1 p2"
    using p1 p2 by (auto simp: valid_pt_iff[OF g])
  then show ?thesis
  proof cases
    case 1 then show ?thesis using p2 by (simp add: EC_add_zero_left)
  next
    case 2 then show ?thesis using p1 by (simp add: EC_add_zero_right)
  next
    case 3 then show ?thesis using add_opposite[OF g 3] valid_zero[OF g] by simp
  next
    case 4 then show ?thesis using add_on_curve[OF g 4] by (simp add: valid_pt_iff[OF g])
  qed
qed

lemma neg_valid:
  assumes g: "good_curve ec" and p: "valid_pt ec p"
  shows "valid_pt ec (EC_neg ec p)"
proof (cases "p = EC_zero")
  case True
  then show ?thesis by (simp add: neg_zero valid_zero[OF g])
next
  case False
  with p have "on_curve ec p" by (simp add: valid_pt_iff[OF g])
  from neg_on_curve[OF g this] show ?thesis by (simp add: valid_pt_iff[OF g])
qed

lemma add_neg_valid:
  assumes g: "good_curve ec" and p: "valid_pt ec p"
  shows "EC_add ec p (EC_neg ec p) = EC_zero"
proof (cases "p = EC_zero")
  case True
  then show ?thesis by (simp add: neg_zero EC_add_zero_left)
next
  case False
  with p have "on_curve ec p" by (simp add: valid_pt_iff[OF g])
  then show ?thesis by (rule add_neg[OF g])
qed

lemma add_minus_id:
  assumes g: "good_curve ec" and p1: "valid_pt ec p1" and p2: "valid_pt ec p2"
  shows "EC_add ec (EC_add ec p1 p2) (EC_neg ec p2) = p1"
proof -
  consider "p2 = EC_zero" | "p1 = EC_zero" "on_curve ec p2"
    | "on_curve ec p1" "on_curve ec p2" "opposite p1 p2"
    | "on_curve ec p1" "on_curve ec p2" "\<not> opposite p1 p2"
    using p1 p2 by (auto simp: valid_pt_iff[OF g])
  then show ?thesis
  proof cases
    case 1 then show ?thesis by (simp add: neg_zero EC_add_zero_right)
  next
    case 2 then show ?thesis using add_neg[OF g 2(2)] by (simp add: EC_add_zero_left)
  next
    case 3
    from opposite_is_neg[OF g 3] have "EC_neg ec p2 = p1"
      using neg_neg[OF g on_curve_point[OF 3(1)]] by simp
    with add_opposite[OF g 3] show ?thesis by (simp add: EC_add_zero_left)
  next
    case 4 then show ?thesis by (rule add_minus_id_aff[OF g])
  qed
qed

lemma add_assoc_aff:
  assumes g: "good_curve ec" and p1: "on_curve ec p1" and p2: "on_curve ec p2"
    and p3: "on_curve ec p3"
  shows "EC_add ec (EC_add ec p1 p2) p3 = EC_add ec p1 (EC_add ec p2 p3)"
proof -
  note pt = on_curve_point[OF p1] on_curve_point[OF p2] on_curve_point[OF p3]
  have v: "valid_pt ec p1" "valid_pt ec p2" "valid_pt ec p3"
    using p1 p2 p3 by (simp_all add: valid_pt_iff[OF g])
  show ?thesis
  proof (cases "opposite p1 p2")
    case True
    then have e: "p2 = EC_neg ec p1" by (rule opposite_is_neg[OF g p1 p2])
    have np: "valid_pt ec (EC_neg ec p1)" by (rule neg_valid[OF g v(1)])
    have "EC_add ec (EC_add ec p3 (EC_neg ec p1)) (EC_neg ec (EC_neg ec p1)) = p3"
      by (rule add_minus_id[OF g v(3) np])
    then have "EC_add ec (EC_add ec p3 (EC_neg ec p1)) p1 = p3"
      by (simp add: neg_neg[OF g pt(1)])
    then have "EC_add ec p1 (EC_add ec (EC_neg ec p1) p3) = p3"
      using add_commute_pt[OF g pt(3) valid_point[OF np]]
        add_commute_pt[OF g add_is_point[OF g valid_point[OF np] pt(3)] pt(1)]
      by simp
    with add_opposite[OF g p1 p2 True] e show ?thesis by (simp add: EC_add_zero_left)
  next
    case n1: False
    show ?thesis
    proof (cases "opposite p2 p3")
      case True
      then have e: "p3 = EC_neg ec p2" by (rule opposite_is_neg[OF g p2 p3])
      from add_minus_id[OF g v(1) v(2)] add_opposite[OF g p2 p3 True] e
      show ?thesis by (simp add: EC_add_zero_right)
    next
      case n2: False
      let ?s = "EC_add ec p1 p2" and ?t = "EC_add ec p2 p3"
      have s: "on_curve ec ?s" by (rule add_on_curve[OF g p1 p2 n1])
      have t: "on_curve ec ?t" by (rule add_on_curve[OF g p2 p3 n2])
      show ?thesis
      proof (cases "opposite ?s p3")
        case True
        then have e: "p3 = EC_neg ec ?s" by (rule opposite_is_neg[OF g s p3])
        from rotate[OF g p1 p2 n1] e have "?t = EC_neg ec p1" by simp
        with add_neg[OF g p1] add_opposite[OF g s p3 True] show ?thesis by simp
      next
        case n3: False
        show ?thesis
        proof (cases "opposite p1 ?t")
          case True
          then have e: "?t = EC_neg ec p1" by (rule opposite_is_neg[OF g p1 t])
          have n2': "\<not> opposite p3 p2" using n2 opposite_sym by blast
          have c: "EC_add ec p3 p2 = ?t" by (rule add_commute_pt[OF g pt(3) pt(2)])
          from rotate[OF g p3 p2 n2'] c e
          have "EC_add ec p2 (EC_neg ec (EC_neg ec p1)) = EC_neg ec p3" by simp
          then have "EC_add ec p2 p1 = EC_neg ec p3" by (simp add: neg_neg[OF g pt(1)])
          then have "?s = EC_neg ec p3" using add_commute_pt[OF g pt(1) pt(2)] by simp
          then have "EC_add ec ?s p3 = EC_add ec p3 (EC_neg ec p3)"
            using add_commute_pt[OF g neg_is_point[OF g pt(3)] pt(3)] by simp
          with add_neg[OF g p3] add_opposite[OF g p1 t True] show ?thesis by simp
        next
          case n4: False
          show ?thesis by (rule assoc_generic[OF g p1 p2 p3 n1 n2 n3 n4])
        qed
      qed
    qed
  qed
qed

lemma add_assoc_valid:
  assumes g: "good_curve ec" and p1: "valid_pt ec p1" and p2: "valid_pt ec p2"
    and p3: "valid_pt ec p3"
  shows "EC_add ec (EC_add ec p1 p2) p3 = EC_add ec p1 (EC_add ec p2 p3)"
proof -
  consider "p1 = EC_zero" | "p2 = EC_zero" | "p3 = EC_zero"
    | "on_curve ec p1" "on_curve ec p2" "on_curve ec p3"
    using p1 p2 p3 by (auto simp: valid_pt_iff[OF g])
  then show ?thesis
  proof cases
    case 1 then show ?thesis by (simp add: EC_add_zero_left)
  next
    case 2 then show ?thesis by (simp add: EC_add_zero_left EC_add_zero_right)
  next
    case 3 then show ?thesis by (simp add: EC_add_zero_right)
  next
    case 4 then show ?thesis by (rule add_assoc_aff[OF g])
  qed
qed

section \<open>Scalar multiplication and the round trip\<close>

lemma mul_ref_valid:
  assumes g: "good_curve ec" and p: "valid_pt ec p"
  shows "valid_pt ec (mul_ref ec p n)"
  by (induction n) (simp_all add: valid_zero[OF g] add_valid[OF g _ p])

lemma mul_ref_add:
  assumes g: "good_curve ec" and p: "valid_pt ec p"
  shows "EC_add ec (mul_ref ec p m) (mul_ref ec p n) = mul_ref ec p (m + n)"
proof (induction n)
  case 0
  show ?case by (simp add: EC_add_zero_right)
next
  case (Suc n)
  have "EC_add ec (mul_ref ec p m) (EC_add ec (mul_ref ec p n) p)
        = EC_add ec (EC_add ec (mul_ref ec p m) (mul_ref ec p n)) p"
    by (rule add_assoc_valid[OF g mul_ref_valid[OF g p] mul_ref_valid[OF g p] p, symmetric])
  with Suc show ?case by simp
qed

lemma mul_ref_double:
  assumes g: "good_curve ec" and p: "valid_pt ec p"
  shows "mul_ref ec (EC_add ec p p) n = mul_ref ec p (2 * n)"
proof (induction n)
  case 0
  show ?case by simp
next
  case (Suc n)
  have "EC_add ec p p = mul_ref ec p 2"
    by (simp add: numeral_2_eq_2 EC_add_zero_left)
  then have "mul_ref ec (EC_add ec p p) (Suc n) = EC_add ec (mul_ref ec p (2 * n)) (mul_ref ec p 2)"
    using Suc by simp
  also have "\<dots> = mul_ref ec p (2 * n + 2)" by (rule mul_ref_add[OF g p])
  finally show ?case by simp
qed

lemma mul_ref_mul:
  assumes g: "good_curve ec" and p: "valid_pt ec p"
  shows "mul_ref ec (mul_ref ec p m) n = mul_ref ec p (m * n)"
proof (induction n)
  case 0
  show ?case by simp
next
  case (Suc n)
  then have "mul_ref ec (mul_ref ec p m) (Suc n) = EC_add ec (mul_ref ec p (m * n)) (mul_ref ec p m)"
    by simp
  also have "\<dots> = mul_ref ec p (m * n + m)" by (rule mul_ref_add[OF g p])
  finally show ?case by (simp add: add.commute)
qed

lemma mul_loop_ref:
  "good_curve ec \<Longrightarrow> valid_pt ec r \<Longrightarrow> valid_pt ec m2 \<Longrightarrow> 0 \<le> n \<Longrightarrow>
   mul_loop ec r m2 n = EC_add ec r (mul_ref ec m2 (nat n))"
proof (induction ec r m2 n rule: mul_loop.induct)
  case (1 ec r m2 n)
  note g = "1.prems"(1) and vr0 = "1.prems"(2) and vm0 = "1.prems"(3)
  show ?case
  proof (cases "0 < n")
    case False
    with "1.prems"(4) have "n = 0" by simp
    then show ?thesis by (simp add: EC_add_zero_right)
  next
    case True
    let ?k = "nat (n div 2)"
    let ?r = "if n AND 1 = 1 then EC_add ec r m2 else r"
    have d: "drop_bit 1 n = n div 2" by (simp add: drop_bit_eq_div)
    have vr: "valid_pt ec ?r" using vr0 vm0 by (simp add: add_valid[OF g])
    have vd: "valid_pt ec (EC_add ec m2 m2)" using vm0 by (simp add: add_valid[OF g])
    have n2: "0 \<le> drop_bit 1 n" using True by (simp add: d)
    have "mul_loop ec r m2 n = mul_loop ec ?r (EC_add ec m2 m2) (drop_bit 1 n)"
      using True by (subst mul_loop.simps) (simp only: if_True)
    also have "\<dots> = EC_add ec ?r (mul_ref ec (EC_add ec m2 m2) (nat (drop_bit 1 n)))"
      by (rule "1.IH"[OF True g vr vd n2])
    also have "\<dots> = EC_add ec ?r (mul_ref ec m2 (2 * ?k))"
      unfolding d by (simp only: mul_ref_double[OF g vm0])
    also have "\<dots> = EC_add ec r (mul_ref ec m2 (nat n))"
    proof (cases "n AND 1 = 1")
      case False
      then have "n mod 2 = 0" by (simp add: and_one_eq)
      then have "n = 2 * (n div 2)" by presburger
      then have "nat n = nat (2 * (n div 2))" by simp
      also have "\<dots> = 2 * ?k" by (simp add: nat_mult_distrib)
      finally have "nat n = 2 * ?k" .
      with False show ?thesis by simp
    next
      case odd: True
      then have "n mod 2 = 1" by (simp add: and_one_eq)
      then have "n = 2 * (n div 2) + 1" by presburger
      then have "nat n = nat (2 * (n div 2) + 1)" by simp
      also have "\<dots> = Suc (2 * ?k)"
        using True by (simp add: nat_add_distrib nat_mult_distrib)
      finally have n: "nat n = Suc (2 * ?k)" .
      note vm = mul_ref_valid[OF g vm0]
      have "EC_add ec (EC_add ec r m2) (mul_ref ec m2 (2 * ?k))
            = EC_add ec r (EC_add ec m2 (mul_ref ec m2 (2 * ?k)))"
        by (rule add_assoc_valid[OF g vr0 vm0 vm])
      also have "EC_add ec m2 (mul_ref ec m2 (2 * ?k)) = EC_add ec (mul_ref ec m2 (2 * ?k)) m2"
        by (rule add_commute_pt[OF g valid_point[OF vm0] valid_point[OF vm]])
      finally show ?thesis using odd n by simp
    qed
    finally show ?thesis .
  qed
qed

lemma EC_mul_ref:
  assumes g: "good_curve ec" and p: "valid_pt ec p" and k: "0 \<le> k"
  shows "EC_mul ec p k = mul_ref ec p (nat k)"
  unfolding EC_mul_def
  using mul_loop_ref[OF g valid_zero[OF g] p k] by (simp add: EC_add_zero_left)

text \<open>
  C3 (as the code has it). On a constructed curve with \<open>q\<close> prime and non-zero
  discriminant, for every valid point \<open>p\<close> with coordinates in \<open>0..q-1\<close> and every
  \<open>k \<ge> 0\<close>, the double-and-add loop of \<open>mul(p, k)\<close> returns the \<open>k\<close>-fold repeated
  addition of \<open>p\<close>; in particular \<open>mul(p, 0)\<close> is the identity and \<open>mul(p, 1) = p\<close>.
\<close>

theorem EC_mul_repeated_add:
  assumes "EC_init a b q = Inr ec" and "is_prime q" and "is_valid_eg a b q = Inr True"
    and "is_point ec p" and "EC_is_valid ec p" and "0 \<le> k"
  shows "EC_mul ec p k = mul_ref ec p (nat k) \<and> EC_mul ec p 0 = EC_zero \<and> EC_mul ec p 1 = p"
proof -
  have g: "good_curve ec" by (rule good_curveI[OF assms(1-3)])
  have v: "valid_pt ec p" using assms(4,5) by (simp add: valid_pt_def)
  have "EC_mul ec p 1 = mul_ref ec p (nat 1)" by (rule EC_mul_ref[OF g v]) simp
  then have "EC_mul ec p 1 = p" by (simp add: EC_add_zero_left)
  moreover have "EC_mul ec p 0 = EC_zero" by (simp add: EC_mul_def)
  ultimately show ?thesis using EC_mul_ref[OF g v assms(6)] by simp
qed

lemma is_valid_eg_7: "is_valid_eg 1 1 7 = Inr True"
  by (simp add: is_valid_eg_def)

theorem EC_mul_repeated_add_witness:
  "EC_init 1 1 7 = Inr ec7 \<and> is_prime 7 \<and> is_valid_eg 1 1 7 = Inr True \<and> is_point ec7 (0, 1)
   \<and> EC_is_valid ec7 (0, 1) \<and> (0::int) \<le> 3
   \<and> EC_mul ec7 (0, 1) 3 = (2, 2) \<and> mul_ref ec7 (0, 1) (nat 3) = (2, 2)"
proof -
  have p: "is_point ec7 (0, 1)" by (simp add: is_point_def ec7_def)
  have v: "EC_is_valid ec7 (0, 1)" by code_simp
  have k: "(0::int) \<le> 3" by simp
  have e: "EC_mul ec7 (0, 1) 3 = (2, 2)" by code_simp
  from EC_mul_repeated_add[OF ec7_init is_prime_7 is_valid_eg_7 p v k] e
    ec7_init is_prime_7 is_valid_eg_7 p v
  show ?thesis by simp
qed

text \<open>
  C3 (as stated) fails: on the curve \<open>(1, 1, 7)\<close> the point \<open>(7, 1)\<close> passes \<open>is_valid\<close>,
  \<open>mul((7, 1), 5)\<close> returns \<open>(0, 6)\<close>, and adding \<open>(7, 1)\<close> five times from the identity
  gives \<open>(0, 1)\<close>.
\<close>

theorem EC_mul_repeated_add_counterexample:
  "EC_init 1 1 7 = Inr ec7 \<and> EC_is_valid ec7 (7, 1)
   \<and> EC_mul ec7 (7, 1) 5 = (0, 6) \<and> mul_ref ec7 (7, 1) (nat 5) = (0, 1)"
  by code_simp

lemma is_valid_of_valid_pt: "valid_pt ec p \<Longrightarrow> EC_is_valid ec p"
  by (simp add: valid_pt_def)

text \<open>
  C1 (as the code has it). ElGamal round trip: on a constructed curve with \<open>q\<close> prime
  and non-zero discriminant, for a cipher built on a base point \<open>g\<close> with coordinates in
  \<open>0..q-1\<close>, every valid plaintext point \<open>p\<close> with coordinates in \<open>0..q-1\<close>, every
  private key \<open>priv \<ge> 0\<close> (so every key in \<open>[1, n)\<close>) and every nonce \<open>r \<ge> 0\<close>:
  \<open>enc2(p, gen(priv), r)\<close> returns a pair, and \<open>dec\<close> of that pair under \<open>priv\<close>
  returns \<open>p\<close>.
\<close>

theorem ElGamal_round_trip:
  assumes init: "EC_init a b q = Inr ec" and pr: "is_prime q"
    and ns: "is_valid_eg a b q = Inr True"
    and eg: "ElGamal_init ec g = Inr eg" and gp: "is_point ec g"
    and pp: "is_point ec p" and pv: "EC_is_valid ec p"
    and priv: "0 \<le> priv" and r: "0 \<le> r"
  shows "\<exists>c. ElGamal_enc2 eg p (ElGamal_gen eg priv) r = Inr c \<and> ElGamal_dec eg c priv = Inr p"
proof -
  have gc: "good_curve ec" by (rule good_curveI[OF init pr ns])
  from eg have gv: "EC_is_valid ec g" and e: "eg_ec eg = ec" "eg_g eg = g"
    by (auto simp: ElGamal_init_def split: if_splits sum.splits)
  have vg: "valid_pt ec g" using gp gv by (simp add: valid_pt_def)
  have vp: "valid_pt ec p" using pp pv by (simp add: valid_pt_def)
  let ?pub = "EC_mul ec g priv"
  let ?c1 = "EC_mul ec g r"
  let ?m = "EC_mul ec ?pub r"
  let ?c2 = "EC_add ec p ?m"
  have pub: "?pub = mul_ref ec g (nat priv)" by (rule EC_mul_ref[OF gc vg priv])
  have vpub: "valid_pt ec ?pub" unfolding pub by (rule mul_ref_valid[OF gc vg])
  have c1: "?c1 = mul_ref ec g (nat r)" by (rule EC_mul_ref[OF gc vg r])
  have vc1: "valid_pt ec ?c1" unfolding c1 by (rule mul_ref_valid[OF gc vg])
  have m: "?m = mul_ref ec g (nat priv * nat r)"
    using EC_mul_ref[OF gc vpub r] mul_ref_mul[OF gc vg] by (simp add: pub)
  have vm: "valid_pt ec ?m" unfolding m by (rule mul_ref_valid[OF gc vg])
  have m': "EC_mul ec ?c1 priv = ?m"
    using EC_mul_ref[OF gc vc1 priv] mul_ref_mul[OF gc vg] by (simp add: c1 m mult.commute)
  have vc2: "valid_pt ec ?c2" by (rule add_valid[OF gc vp vm])
  have enc: "ElGamal_enc2 eg p (ElGamal_gen eg priv) r = Inr (?c1, ?c2)"
    using pv is_valid_of_valid_pt[OF vpub] by (simp add: ElGamal_enc2_def ElGamal_gen_def e)
  have "ElGamal_dec eg (?c1, ?c2) priv = Inr (EC_add ec ?c2 (EC_neg ec (EC_mul ec ?c1 priv)))"
    using is_valid_of_valid_pt[OF vc1] is_valid_of_valid_pt[OF vc2]
    by (simp add: ElGamal_dec_def e)
  also have "EC_add ec ?c2 (EC_neg ec (EC_mul ec ?c1 priv)) = p"
    unfolding m' by (rule add_minus_id[OF gc vp vm])
  finally show ?thesis using enc by blast
qed


theorem ElGamal_round_trip_witness:
  "EC_init 1 1 7 = Inr ec7 \<and> is_prime 7 \<and> is_valid_eg 1 1 7 = Inr True
   \<and> ElGamal_init ec7 (0, 1) = Inr eg7 \<and> is_point ec7 (0, 1)
   \<and> is_point ec7 (2, 5) \<and> EC_is_valid ec7 (2, 5) \<and> (0::int) \<le> 2 \<and> (0::int) \<le> 3
   \<and> ElGamal_enc2 eg7 (2, 5) (ElGamal_gen eg7 2) 3 = Inr ((2, 2), (2, 2))
   \<and> ElGamal_dec eg7 ((2, 2), (2, 2)) 2 = Inr (2, 5)"
proof -
  have gp: "is_point ec7 (0, 1)" and pp: "is_point ec7 (2, 5)"
    by (simp_all add: is_point_def ec7_def)
  have pv: "EC_is_valid ec7 (2, 5)" by code_simp
  have k: "(0::int) \<le> 2" "(0::int) \<le> 3" by simp_all
  have e: "ElGamal_enc2 eg7 (2, 5) (ElGamal_gen eg7 2) 3 = Inr ((2, 2), (2, 2))" by code_simp
  from ElGamal_round_trip[OF ec7_init is_prime_7 is_valid_eg_7 eg7_init gp pp pv k] e
  have "ElGamal_dec eg7 ((2, 2), (2, 2)) 2 = Inr (2, 5)" by auto
  with e ec7_init is_prime_7 is_valid_eg_7 eg7_init gp pp pv show ?thesis by simp
qed

text \<open>
  C1 (as stated) fails: on the curve \<open>(1, 1, 7)\<close> with base point \<open>(0, 1)\<close> of order
  \<open>5\<close>, the plaintext \<open>(0, 8)\<close> passes \<open>is_valid\<close>; with private key \<open>1\<close> and nonce \<open>1\<close>
  \<open>enc2\<close> returns \<open>((0, 1), (0, 0))\<close> and \<open>dec\<close> returns \<open>(0, 6)\<close>. The plaintext
  \<open>(-7, 1)\<close>, the first point that \<open>at(-7)\<close> returns, comes back as \<open>(2, 2)\<close>.
\<close>

theorem ElGamal_round_trip_counterexample:
  "EC_init 1 1 7 = Inr ec7 \<and> ElGamal_init ec7 (0, 1) = Inr eg7 \<and> eg_n eg7 = 5
   \<and> EC_is_valid ec7 (0, 8)
   \<and> ElGamal_enc2 eg7 (0, 8) (ElGamal_gen eg7 1) 1 = Inr ((0, 1), (0, 0))
   \<and> ElGamal_dec eg7 ((0, 1), (0, 0)) 1 = Inr (0, 6)
   \<and> EC_at ec7 (- 7) = Inr ((- 7, 1), (- 7, 6)) \<and> EC_is_valid ec7 (- 7, 1)
   \<and> ElGamal_enc2 eg7 (- 7, 1) (ElGamal_gen eg7 1) 1 = Inr ((0, 1), (0, 6))
   \<and> ElGamal_dec eg7 ((0, 1), (0, 6)) 1 = Inr (2, 2)"
  by code_simp

end
